theory Spec2Isabelle
  imports Main
begin

section \<open>Data model of script.js\<close>

text \<open>
  The three cell values of the script (\<^verbatim>\<open>const EMPTY = 0; const BLACK = 1; const WHITE = 2\<close>).
  A player is one of the same constants, as in the script, where \<^verbatim>\<open>current === player\<close>
  compares a cell with a player.
\<close>

datatype cell = EMPTY | BLACK | WHITE

definition BOARD_SIZE :: int where
  "BOARD_SIZE = 8"

text \<open>
  The global \<^verbatim>\<open>board\<close> is an array of row arrays; a coordinate object \<^verbatim>\<open>{r, c}\<close> is a
  pair of numbers. Coordinates are integers: the walk of \<^verbatim>\<open>getFlippablePieces\<close> does reach
  \<open>-1\<close> and \<open>8\<close>.
\<close>

type_synonym board = "cell list list"
type_synonym pos = "int \<times> int"

text \<open>
  What the script can throw. \<open>TypeError\<close> is the error of reading or writing a property
  of \<^verbatim>\<open>undefined\<close> (\<^verbatim>\<open>board[r][c]\<close> when \<^verbatim>\<open>board[r]\<close> is no row). \<open>SparseWrite\<close> marks the
  one thing the lists of this model cannot hold: an assignment \<^verbatim>\<open>row[c] = v\<close> at a column
  the row does not have, which in JavaScript adds a property to the array. The script
  never makes one: it writes only cells it has read (see \<open>game_inv_no_SparseWrite\<close>).
\<close>

datatype error = TypeError | SparseWrite

text \<open>
  The two texts the script writes for a player (\<^verbatim>\<open>currentPlayer === BLACK ? kuro : shiro\<close>),
  and the texts it puts into \<^verbatim>\<open>messageElement\<close>: the turn message of \<^verbatim>\<open>checkGameStatus\<close>,
  its pass message (the passing colour, then the colour whose turn comes), and the three
  result messages of \<^verbatim>\<open>endGame\<close> with the two counts in the order the script prints them.
\<close>

datatype colour = Kuro | Shiro

datatype message =
    TurnMessage colour
  | PassMessage colour colour
  | BlackWins nat nat
  | WhiteWins nat nat
  | DrawGame nat nat

text \<open>
  The mutable globals of the script: \<^verbatim>\<open>board\<close>, \<^verbatim>\<open>currentPlayer\<close>, the text of
  \<^verbatim>\<open>messageElement\<close>, the two counts shown in \<^verbatim>\<open>scoreElement\<close>, and the callbacks
  scheduled with \<^verbatim>\<open>setTimeout\<close> that have not run yet (each is the closure of
  \<^verbatim>\<open>checkGameStatus\<close>, identified by the \<^verbatim>\<open>nextPlayer\<close> it captured; all have the same
  delay, so they run in the order they were scheduled). The squares that \<^verbatim>\<open>renderBoard\<close>
  draws into \<^verbatim>\<open>boardElement\<close> are not part of the state.
\<close>

record state =
  board :: board
  currentPlayer :: cell
  message :: message
  score :: "nat \<times> nat"
  timers :: "cell list"

text \<open>
  A call of a function of the script either returns a value or throws, and in both cases
  leaves the globals in some state. A call that never returns is \<open>None\<close>.
\<close>

datatype 'a exec = Done 'a state | Threw error state

definition bind :: "'a exec option \<Rightarrow> ('a \<Rightarrow> state \<Rightarrow> 'b exec option) \<Rightarrow> 'b exec option" where
  "bind m f =
     (case m of
        None \<Rightarrow> None
      | Some (Threw e s) \<Rightarrow> Some (Threw e s)
      | Some (Done x s) \<Rightarrow> f x s)"

section \<open>Reading and writing the board\<close>

text \<open>
  \<^verbatim>\<open>board[r][c]\<close> as an expression: a \<open>TypeError\<close> when \<^verbatim>\<open>board[r]\<close> is \<^verbatim>\<open>undefined\<close>,
  the value \<^verbatim>\<open>undefined\<close> (here \<open>None\<close>) when the row has no column \<open>c\<close>, the cell
  otherwise.
\<close>

definition cell_at :: "board \<Rightarrow> int \<Rightarrow> int \<Rightarrow> error + cell option" where
  "cell_at b r c =
     (if 0 \<le> r \<and> r < int (length b) then
        (let row = b ! nat r in
         if 0 \<le> c \<and> c < int (length row) then Inr (Some (row ! nat c)) else Inr None)
      else Inl TypeError)"

text \<open>\<^verbatim>\<open>board[r][c] = v\<close> as a statement.\<close>

definition set_cell :: "board \<Rightarrow> int \<Rightarrow> int \<Rightarrow> cell \<Rightarrow> error + board" where
  "set_cell b r c v =
     (if 0 \<le> r \<and> r < int (length b) then
        (let row = b ! nat r in
         if 0 \<le> c \<and> c < int (length row) then Inr (b[nat r := row[nat c := v]])
         else Inl SparseWrite)
      else Inl TypeError)"

section \<open>getFlippablePieces\<close>

text \<open>
  \<^verbatim>\<open>DIRECTIONS\<close>: the objects \<^verbatim>\<open>{dr, dc}\<close> as pairs, in the order of the array literal.
\<close>

definition DIRECTIONS :: "(int \<times> int) list" where
  "DIRECTIONS = [(-1, 0), (1, 0), (0, -1), (0, 1), (-1, -1), (-1, 1), (1, -1), (1, 1)]"

text \<open>
  The \<^verbatim>\<open>while\<close> loop of one direction, entered at \<open>(nr, nc)\<close> with the local \<open>line\<close>.
  Its value is what the iteration pushes onto \<^verbatim>\<open>flippable\<close>: \<open>line\<close> when the loop
  breaks at a cell of \<open>player\<close>, nothing when it breaks at an \<open>EMPTY\<close> cell or leaves
  the board. A cell that is none of \<open>EMPTY\<close>, \<open>opponent\<close>, \<open>player\<close> matches no branch
  and the walk goes on. The loop is not bounded for every \<open>(dr, dc)\<close>, hence the option.
\<close>

partial_function (option) walk ::
  "cell \<Rightarrow> cell \<Rightarrow> int \<Rightarrow> int \<Rightarrow> int \<Rightarrow> int \<Rightarrow> pos list \<Rightarrow> state \<Rightarrow> pos list exec option"
where
  "walk player opponent dr dc nr nc line s =
     (if nr \<ge> 0 \<and> nr < BOARD_SIZE \<and> nc \<ge> 0 \<and> nc < BOARD_SIZE then
        (case cell_at (board s) nr nc of
           Inl e \<Rightarrow> Some (Threw e s)
         | Inr current \<Rightarrow>
             if current = Some EMPTY then Some (Done [] s)
             else if current = Some opponent then
               walk player opponent dr dc (nr + dr) (nc + dc) (line @ [(nr, nc)]) s
             else if current = Some player then Some (Done line s)
             else walk player opponent dr dc (nr + dr) (nc + dc) line s)
      else Some (Done [] s))"

declare walk.simps [code]

text \<open>\<^verbatim>\<open>DIRECTIONS.forEach\<close>, with the local \<open>flippable\<close> it appends to.\<close>

fun forEach_direction ::
  "int \<Rightarrow> int \<Rightarrow> cell \<Rightarrow> cell \<Rightarrow> (int \<times> int) list \<Rightarrow> pos list \<Rightarrow> state \<Rightarrow> pos list exec option"
where
  "forEach_direction r c player opponent [] flippable s = Some (Done flippable s)"
| "forEach_direction r c player opponent ((dr, dc) # ds) flippable s =
     bind (walk player opponent dr dc (r + dr) (c + dc) [] s)
       (\<lambda>line. forEach_direction r c player opponent ds (flippable @ line))"

text \<open>
  The guard evaluates \<^verbatim>\<open>board[r][c] !== EMPTY\<close> first, and the range tests only when that
  is false.
\<close>

definition getFlippablePieces :: "int \<Rightarrow> int \<Rightarrow> cell \<Rightarrow> state \<Rightarrow> pos list exec option" where
  "getFlippablePieces r c player s =
     (case cell_at (board s) r c of
        Inl e \<Rightarrow> Some (Threw e s)
      | Inr v \<Rightarrow>
          if v \<noteq> Some EMPTY \<or> r < 0 \<or> r \<ge> BOARD_SIZE \<or> c < 0 \<or> c \<ge> BOARD_SIZE
          then Some (Done [] s)
          else
            (let opponent = (if player = BLACK then WHITE else BLACK)
             in forEach_direction r c player opponent DIRECTIONS [] s))"

section \<open>getValidMoves\<close>

text \<open>
  The two \<^verbatim>\<open>for\<close> loops, over the columns \<open>cs\<close> still to visit in row \<open>r\<close> and over
  the rows \<open>rs\<close> still to visit, with the local \<open>validMoves\<close> they push to.
\<close>

fun getValidMoves_cols ::
  "cell \<Rightarrow> int \<Rightarrow> int list \<Rightarrow> pos list \<Rightarrow> state \<Rightarrow> pos list exec option"
where
  "getValidMoves_cols player r [] validMoves s = Some (Done validMoves s)"
| "getValidMoves_cols player r (c # cs) validMoves s =
     bind (getFlippablePieces r c player s)
       (\<lambda>flippable.
          getValidMoves_cols player r cs
            (if length flippable > 0 then validMoves @ [(r, c)] else validMoves))"

fun getValidMoves_rows ::
  "cell \<Rightarrow> int list \<Rightarrow> pos list \<Rightarrow> state \<Rightarrow> pos list exec option"
where
  "getValidMoves_rows player [] validMoves s = Some (Done validMoves s)"
| "getValidMoves_rows player (r # rs) validMoves s =
     bind (getValidMoves_cols player r [0 .. BOARD_SIZE - 1] validMoves s)
       (getValidMoves_rows player rs)"

definition getValidMoves :: "cell \<Rightarrow> state \<Rightarrow> pos list exec option" where
  "getValidMoves player s = getValidMoves_rows player [0 .. BOARD_SIZE - 1] [] s"

section \<open>Scores, game status and turns\<close>

text \<open>
  The counting loops, which \<^verbatim>\<open>updateScore\<close> and \<^verbatim>\<open>endGame\<close> both contain, with the
  locals \<open>(blackCount, whiteCount)\<close>.
\<close>

fun count_cols :: "int \<Rightarrow> int list \<Rightarrow> nat \<times> nat \<Rightarrow> state \<Rightarrow> (nat \<times> nat) exec option" where
  "count_cols r [] counts s = Some (Done counts s)"
| "count_cols r (c # cs) (blackCount, whiteCount) s =
     (case cell_at (board s) r c of
        Inl e \<Rightarrow> Some (Threw e s)
      | Inr v \<Rightarrow>
          count_cols r cs
            (if v = Some BLACK then (blackCount + 1, whiteCount)
             else if v = Some WHITE then (blackCount, whiteCount + 1)
             else (blackCount, whiteCount)) s)"

fun count_rows :: "int list \<Rightarrow> nat \<times> nat \<Rightarrow> state \<Rightarrow> (nat \<times> nat) exec option" where
  "count_rows [] counts s = Some (Done counts s)"
| "count_rows (r # rs) counts s =
     bind (count_cols r [0 .. BOARD_SIZE - 1] counts s) (count_rows rs)"

definition updateScore :: "state \<Rightarrow> unit exec option" where
  "updateScore s =
     bind (count_rows [0 .. BOARD_SIZE - 1] (0, 0) s)
       (\<lambda>counts s'. Some (Done () (s'\<lparr>score := counts\<rparr>)))"

definition endGame :: "state \<Rightarrow> unit exec option" where
  "endGame s =
     bind (count_rows [0 .. BOARD_SIZE - 1] (0, 0) s)
       (\<lambda>(blackCount, whiteCount) s'.
          Some (Done ()
            (s'\<lparr>message :=
                 (if blackCount > whiteCount then BlackWins blackCount whiteCount
                  else if whiteCount > blackCount then WhiteWins whiteCount blackCount
                  else DrawGame blackCount whiteCount)\<rparr>)))"

text \<open>
  \<^verbatim>\<open>checkGameStatus\<close>. In the pass branch the script only schedules the callback that will
  hand the turn over; \<^verbatim>\<open>currentPlayer\<close> is not changed before that callback runs.
\<close>

definition checkGameStatus :: "pos list \<Rightarrow> state \<Rightarrow> unit exec option" where
  "checkGameStatus currentValidMoves s =
     bind (updateScore s)
       (\<lambda>_ s1.
          if length currentValidMoves = 0 then
            (let nextPlayer = (if currentPlayer s1 = BLACK then WHITE else BLACK) in
             bind (getValidMoves nextPlayer s1)
               (\<lambda>nextValidMoves s2.
                  if length nextValidMoves = 0 then endGame s2
                  else
                    (let playerColor = (if currentPlayer s2 = BLACK then Kuro else Shiro) in
                     Some (Done ()
                       (s2\<lparr>message :=
                             PassMessage playerColor (if nextPlayer = BLACK then Kuro else Shiro),
                           timers := timers s2 @ [nextPlayer]\<rparr>)))))
          else
            (let playerColor = (if currentPlayer s1 = BLACK then Kuro else Shiro) in
             Some (Done () (s1\<lparr>message := TurnMessage playerColor\<rparr>))))"

text \<open>
  \<^verbatim>\<open>renderBoard\<close> without the squares it draws: the loops that build them read the cells
  \<^verbatim>\<open>getValidMoves\<close> has just read, and change none of the globals.
\<close>

definition renderBoard :: "state \<Rightarrow> unit exec option" where
  "renderBoard s = bind (getValidMoves (currentPlayer s) s) checkGameStatus"

definition switchTurn :: "state \<Rightarrow> unit exec option" where
  "switchTurn s =
     renderBoard (s\<lparr>currentPlayer := (if currentPlayer s = BLACK then WHITE else BLACK)\<rparr>)"

section \<open>handleMove and initializeGame\<close>

text \<open>The statement \<^verbatim>\<open>board[r][c] = v\<close> on the globals.\<close>

definition assign :: "int \<Rightarrow> int \<Rightarrow> cell \<Rightarrow> state \<Rightarrow> unit exec option" where
  "assign r c v s =
     (case set_cell (board s) r c v of
        Inl e \<Rightarrow> Some (Threw e s)
      | Inr b \<Rightarrow> Some (Done () (s\<lparr>board := b\<rparr>)))"

text \<open>\<^verbatim>\<open>flippable.forEach(pos => { board[pos.r][pos.c] = currentPlayer; })\<close>\<close>

fun forEach_flip :: "pos list \<Rightarrow> state \<Rightarrow> unit exec option" where
  "forEach_flip [] s = Some (Done () s)"
| "forEach_flip ((pr, pc) # ps) s =
     bind (assign pr pc (currentPlayer s) s) (\<lambda>_. forEach_flip ps)"

text \<open>
  \<^verbatim>\<open>handleMove\<close> returns nothing; whether the move was accepted shows in the state it
  leaves.
\<close>

definition handleMove :: "int \<Rightarrow> int \<Rightarrow> state \<Rightarrow> unit exec option" where
  "handleMove r c s =
     bind (getFlippablePieces r c (currentPlayer s) s)
       (\<lambda>flippable s1.
          if length flippable > 0 then
            bind (assign r c (currentPlayer s1) s1)
              (\<lambda>_ s2. bind (forEach_flip flippable s2) (\<lambda>_. switchTurn))
          else Some (Done () s1))"

text \<open>
  \<^verbatim>\<open>initializeGame\<close>, run on whatever the globals hold: at page load and on every click
  of the reset button. It cancels no scheduled callback.
\<close>

definition initializeGame :: "state \<Rightarrow> unit exec option" where
  "initializeGame s =
     bind (assign 3 3 WHITE
             (s\<lparr>board := replicate (nat BOARD_SIZE) (replicate (nat BOARD_SIZE) EMPTY)\<rparr>))
       (\<lambda>_ s1. bind (assign 3 4 BLACK s1)
       (\<lambda>_ s2. bind (assign 4 3 BLACK s2)
       (\<lambda>_ s3. bind (assign 4 4 WHITE s3)
       (\<lambda>_ s4. bind (renderBoard (s4\<lparr>currentPlayer := BLACK\<rparr>))
       (\<lambda>_. updateScore)))))"

text \<open>
  The callback of \<^verbatim>\<open>setTimeout\<close> in \<^verbatim>\<open>checkGameStatus\<close>, and the moment the oldest
  scheduled callback runs (nothing happens when none is scheduled).
\<close>

definition passTimeout :: "cell \<Rightarrow> state \<Rightarrow> unit exec option" where
  "passTimeout nextPlayer s = renderBoard (s\<lparr>currentPlayer := nextPlayer\<rparr>)"

definition fireTimer :: "state \<Rightarrow> unit exec option" where
  "fireTimer s =
     (case timers s of
        [] \<Rightarrow> Some (Done () s)
      | nextPlayer # rest \<Rightarrow> passTimeout nextPlayer (s\<lparr>timers := rest\<rparr>))"

text \<open>
  What can happen during a game: a call of \<^verbatim>\<open>handleMove\<close>, or a scheduled callback
  running. An exception ends the handler that threw it, and the page goes on with the
  globals as they are.
\<close>

datatype event = Move int int | Timeout

fun step :: "event \<Rightarrow> state \<Rightarrow> unit exec option" where
  "step (Move r c) s = handleMove r c s"
| "step Timeout s = fireTimer s"

fun run :: "event list \<Rightarrow> state \<Rightarrow> state option" where
  "run [] s = Some s"
| "run (e # es) s =
     (case step e s of
        None \<Rightarrow> None
      | Some (Done _ s') \<Rightarrow> run es s'
      | Some (Threw _ s') \<Rightarrow> run es s')"

section \<open>Vocabulary of the specification\<close>

text \<open>
  A coordinate pair of the board, and a board as the script builds it: \<open>BOARD_SIZE\<close> rows
  of \<open>BOARD_SIZE\<close> cells. On such a board \<open>at b (r, c)\<close> is the cell \<^verbatim>\<open>board[r][c]\<close>.
  The other player, and the word the script prints for a player.
\<close>

definition in_range :: "pos \<Rightarrow> bool" where
  "in_range p = (0 \<le> fst p \<and> fst p < BOARD_SIZE \<and> 0 \<le> snd p \<and> snd p < BOARD_SIZE)"

definition wf_board :: "board \<Rightarrow> bool" where
  "wf_board b = (int (length b) = BOARD_SIZE \<and> list_all (\<lambda>row. int (length row) = BOARD_SIZE) b)"

definition at :: "board \<Rightarrow> pos \<Rightarrow> cell" where
  "at b p = b ! nat (fst p) ! nat (snd p)"

definition opposite :: "cell \<Rightarrow> cell" where
  "opposite player = (if player = BLACK then WHITE else BLACK)"

definition colour_of :: "cell \<Rightarrow> colour" where
  "colour_of player = (if player = BLACK then Kuro else Shiro)"

text \<open>
  The flip list in the words of the specification. The direction order it fixes: up, down,
  left, right, up-left, up-right, down-left, down-right (row 0 is the top row). The cells
  met walking outward from \<open>(r, c)\<close> in a direction, up to the board edge, are its \<open>ray\<close>;
  the maximal run of opponent cells at the start of a ray is \<open>opponent_run\<close>; the run is
  closed when the cell after it exists and holds the player's colour.
\<close>

definition spec_directions :: "(int \<times> int) list" where
  "spec_directions =
     [(-1, 0), (1, 0), (0, -1), (0, 1), (-1, -1), (-1, 1), (1, -1), (1, 1)]"

definition ray :: "int \<Rightarrow> int \<Rightarrow> int \<times> int \<Rightarrow> pos list" where
  "ray r c d = takeWhile in_range (map (\<lambda>k. (r + k * fst d, c + k * snd d)) [1 .. BOARD_SIZE - 1])"

definition opponent_run :: "board \<Rightarrow> cell \<Rightarrow> pos list \<Rightarrow> pos list" where
  "opponent_run b opp ps = takeWhile (\<lambda>p. at b p = opp) ps"

definition run_closed :: "board \<Rightarrow> cell \<Rightarrow> cell \<Rightarrow> pos list \<Rightarrow> bool" where
  "run_closed b player opp ps =
     (case dropWhile (\<lambda>p. at b p = opp) ps of [] \<Rightarrow> False | p # _ \<Rightarrow> at b p = player)"

definition spec_line :: "board \<Rightarrow> int \<Rightarrow> int \<Rightarrow> cell \<Rightarrow> int \<times> int \<Rightarrow> pos list" where
  "spec_line b r c player d =
     (if run_closed b player (opposite player) (ray r c d)
      then opponent_run b (opposite player) (ray r c d) else [])"

definition spec_flippablePieces :: "board \<Rightarrow> int \<Rightarrow> int \<Rightarrow> cell \<Rightarrow> pos list" where
  "spec_flippablePieces b r c player = concat (map (spec_line b r c player) spec_directions)"

text \<open>
  The flip list of any cell of the board (empty for an occupied one), the cells of the
  board in row-major order and that order, the legal moves of a player, the number of
  cells of one colour and of discs, and the result the script announces for two counts.
\<close>

definition flips :: "board \<Rightarrow> int \<Rightarrow> int \<Rightarrow> cell \<Rightarrow> pos list" where
  "flips b r c player = (if at b (r, c) = EMPTY then spec_flippablePieces b r c player else [])"

definition all_positions :: "pos list" where
  "all_positions = concat (map (\<lambda>r. map (Pair r) [0 .. BOARD_SIZE - 1]) [0 .. BOARD_SIZE - 1])"

definition row_major :: "pos \<Rightarrow> pos \<Rightarrow> bool" where
  "row_major p q = (fst p < fst q \<or> fst p = fst q \<and> snd p < snd q)"

definition valid_moves :: "board \<Rightarrow> cell \<Rightarrow> pos list" where
  "valid_moves b player = filter (\<lambda>(r, c). flips b r c player \<noteq> []) all_positions"

definition count_of :: "board \<Rightarrow> cell \<Rightarrow> nat" where
  "count_of b v = length (filter (\<lambda>p. at b p = v) all_positions)"

definition total_discs :: "board \<Rightarrow> nat" where
  "total_discs b = count_of b BLACK + count_of b WHITE"

definition result_message :: "nat \<Rightarrow> nat \<Rightarrow> message" where
  "result_message blackCount whiteCount =
     (if blackCount > whiteCount then BlackWins blackCount whiteCount
      else if whiteCount > blackCount then WhiteWins whiteCount blackCount
      else DrawGame blackCount whiteCount)"

text \<open>
  One cell of a board overwritten, and the board after a disc of \<open>player\<close> is placed at
  \<open>p\<close> and the cells \<open>flipped\<close> are turned to \<open>player\<close>.
\<close>

definition upd :: "board \<Rightarrow> pos \<Rightarrow> cell \<Rightarrow> board" where
  "upd b p v = b[nat (fst p) := (b ! nat (fst p))[nat (snd p) := v]]"

definition place :: "board \<Rightarrow> pos \<Rightarrow> cell \<Rightarrow> pos list \<Rightarrow> board" where
  "place b p player flipped = fold (\<lambda>q b'. upd b' q player) flipped (upd b p player)"

text \<open>
  The globals a call leaves behind, whether it returned or threw. The states of a game:
  the board is well formed, a player is to move, and the scheduled pass callbacks hand
  the turn to a player.
\<close>

fun final_state :: "'a exec \<Rightarrow> state" where
  "final_state (Done _ s) = s"
| "final_state (Threw _ s) = s"

definition game_inv :: "state \<Rightarrow> bool" where
  "game_inv s =
     (wf_board (board s) \<and> (currentPlayer s = BLACK \<or> currentPlayer s = WHITE) \<and>
      list_all (\<lambda>p. p = BLACK \<or> p = WHITE) (timers s))"

section \<open>Positions used as examples\<close>

text \<open>The opening position, and the globals once the script has started a game on it.\<close>

definition initial_board :: board where
  "initial_board =
     [[EMPTY, EMPTY, EMPTY, EMPTY, EMPTY, EMPTY, EMPTY, EMPTY],
      [EMPTY, EMPTY, EMPTY, EMPTY, EMPTY, EMPTY, EMPTY, EMPTY],
      [EMPTY, EMPTY, EMPTY, EMPTY, EMPTY, EMPTY, EMPTY, EMPTY],
      [EMPTY, EMPTY, EMPTY, WHITE, BLACK, EMPTY, EMPTY, EMPTY],
      [EMPTY, EMPTY, EMPTY, BLACK, WHITE, EMPTY, EMPTY, EMPTY],
      [EMPTY, EMPTY, EMPTY, EMPTY, EMPTY, EMPTY, EMPTY, EMPTY],
      [EMPTY, EMPTY, EMPTY, EMPTY, EMPTY, EMPTY, EMPTY, EMPTY],
      [EMPTY, EMPTY, EMPTY, EMPTY, EMPTY, EMPTY, EMPTY, EMPTY]]"

definition initial_state :: state where
  "initial_state =
     \<lparr>board = initial_board, currentPlayer = BLACK, message = TurnMessage Kuro,
      score = (2, 2), timers = []\<rparr>"

text \<open>
  A position with \<open>BLACK\<close> to move in which the empty cell (3,3) sees every kind of ray:
  upward three white discs reach the edge, to the left a white disc is followed by an
  empty cell, to the right two white discs and downward and down-right one white disc are
  closed by a black disc, and three diagonals start with an empty cell.
\<close>

definition midgame_board :: board where
  "midgame_board =
     [[EMPTY, EMPTY, EMPTY, WHITE, EMPTY, EMPTY, EMPTY, EMPTY],
      [EMPTY, EMPTY, EMPTY, WHITE, EMPTY, EMPTY, EMPTY, EMPTY],
      [EMPTY, EMPTY, EMPTY, WHITE, EMPTY, EMPTY, EMPTY, EMPTY],
      [EMPTY, EMPTY, WHITE, EMPTY, WHITE, WHITE, BLACK, EMPTY],
      [EMPTY, EMPTY, EMPTY, WHITE, WHITE, EMPTY, EMPTY, EMPTY],
      [EMPTY, EMPTY, EMPTY, BLACK, EMPTY, BLACK, EMPTY, EMPTY],
      [EMPTY, EMPTY, EMPTY, EMPTY, EMPTY, EMPTY, EMPTY, EMPTY],
      [EMPTY, EMPTY, EMPTY, EMPTY, EMPTY, EMPTY, EMPTY, EMPTY]]"

definition midgame_state :: state where
  "midgame_state =
     \<lparr>board = midgame_board, currentPlayer = BLACK, message = TurnMessage Kuro,
      score = (3, 8), timers = []\<rparr>"

text \<open>
  A position with \<open>WHITE\<close> to move: after the move at (0,2) \<open>BLACK\<close> has no legal move
  and \<open>WHITE\<close> has one, at (7,7).
\<close>

definition pass_board :: board where
  "pass_board =
     [[WHITE, BLACK, EMPTY, EMPTY, EMPTY, EMPTY, EMPTY, EMPTY],
      [EMPTY, EMPTY, EMPTY, EMPTY, EMPTY, EMPTY, EMPTY, EMPTY],
      [EMPTY, EMPTY, EMPTY, EMPTY, EMPTY, EMPTY, EMPTY, EMPTY],
      [EMPTY, EMPTY, EMPTY, EMPTY, EMPTY, EMPTY, EMPTY, EMPTY],
      [EMPTY, EMPTY, EMPTY, EMPTY, EMPTY, EMPTY, EMPTY, EMPTY],
      [EMPTY, EMPTY, EMPTY, EMPTY, EMPTY, EMPTY, EMPTY, EMPTY],
      [EMPTY, EMPTY, EMPTY, EMPTY, EMPTY, EMPTY, EMPTY, EMPTY],
      [WHITE, WHITE, WHITE, WHITE, WHITE, WHITE, BLACK, EMPTY]]"

definition pass_state :: state where
  "pass_state =
     \<lparr>board = pass_board, currentPlayer = WHITE, message = TurnMessage Shiro,
      score = (2, 7), timers = []\<rparr>"

text \<open>A position in which neither player has a legal move.\<close>

definition finished_board :: board where
  "finished_board =
     [[WHITE, WHITE, WHITE, EMPTY, EMPTY, EMPTY, EMPTY, EMPTY],
      [EMPTY, EMPTY, EMPTY, EMPTY, EMPTY, EMPTY, EMPTY, EMPTY],
      [EMPTY, EMPTY, EMPTY, EMPTY, EMPTY, EMPTY, EMPTY, EMPTY],
      [EMPTY, EMPTY, EMPTY, EMPTY, EMPTY, EMPTY, EMPTY, EMPTY],
      [EMPTY, EMPTY, EMPTY, EMPTY, EMPTY, EMPTY, EMPTY, EMPTY],
      [EMPTY, EMPTY, EMPTY, EMPTY, EMPTY, EMPTY, EMPTY, EMPTY],
      [EMPTY, EMPTY, EMPTY, EMPTY, EMPTY, EMPTY, EMPTY, EMPTY],
      [EMPTY, EMPTY, EMPTY, EMPTY, EMPTY, EMPTY, EMPTY, EMPTY]]"

definition finished_state :: state where
  "finished_state =
     \<lparr>board = finished_board, currentPlayer = BLACK, message = WhiteWins 3 0,
      score = (0, 3), timers = []\<rparr>"

section \<open>Auxiliary functions of the proofs\<close>

text \<open>
  The first \<open>n\<close> cells of the walk that starts at \<open>p\<close> with step \<open>d\<close>; the \<^verbatim>\<open>while\<close>
  loop of \<open>walk\<close> run over a given list of cells; and the globals after \<^verbatim>\<open>renderBoard\<close>
  on a well-formed board, read off \<^verbatim>\<open>checkGameStatus\<close>.
\<close>

fun steps :: "nat \<Rightarrow> int \<times> int \<Rightarrow> pos \<Rightarrow> pos list" where
  "steps 0 d p = []"
| "steps (Suc n) d p = p # steps n d (fst p + fst d, snd p + snd d)"

fun scan :: "board \<Rightarrow> cell \<Rightarrow> cell \<Rightarrow> pos list \<Rightarrow> pos list \<Rightarrow> pos list" where
  "scan b player opp [] line = []"
| "scan b player opp (p # ps) line =
     (if at b p = EMPTY then []
      else if at b p = opp then scan b player opp ps (line @ [p])
      else if at b p = player then line
      else scan b player opp ps line)"

definition rendered :: "state \<Rightarrow> state" where
  "rendered s =
     (let b = board s; p = currentPlayer s;
          s1 = s\<lparr>score := (count_of b BLACK, count_of b WHITE)\<rparr>
      in if valid_moves b p \<noteq> [] then
           s1\<lparr>message := TurnMessage (if p = BLACK then Kuro else Shiro)\<rparr>
         else if valid_moves b (opposite p) = [] then
           s1\<lparr>message := result_message (count_of b BLACK) (count_of b WHITE)\<rparr>
         else
           s1\<lparr>message := PassMessage (if p = BLACK then Kuro else Shiro)
                              (if opposite p = BLACK then Kuro else Shiro),
              timers := timers s @ [opposite p]\<rparr>)"

section \<open>Properties\<close>


subsection \<open>Sequencing\<close>

lemma bind_Done [simp]: "bind (Some (Done x s)) f = f x s"
  by (simp add: bind_def)

lemma bind_Threw [simp]: "bind (Some (Threw e s)) f = Some (Threw e s)"
  by (simp add: bind_def)

subsection \<open>Well-formed boards\<close>

text \<open>Reads and writes inside a well-formed board succeed, and a write changes one cell.\<close>

lemma wf_board_index:
  assumes "wf_board b" and "0 \<le> r" and "r < BOARD_SIZE"
  shows "nat r < length b"
proof -
  from assms have "r < int (length b)" by (simp add: wf_board_def)
  with assms(2) show ?thesis by (simp add: nat_less_iff)
qed

lemma wf_board_row:
  assumes "wf_board b" and "0 \<le> r" and "r < BOARD_SIZE"
  shows "int (length (b ! nat r)) = BOARD_SIZE"
proof -
  from wf_board_index [OF assms] have "b ! nat r \<in> set b" by simp
  with assms(1) show ?thesis by (simp add: wf_board_def list_all_iff)
qed

lemma cell_at_wf:
  assumes "wf_board b" and "in_range (r, c)"
  shows "cell_at b r c = Inr (Some (at b (r, c)))"
proof -
  from assms have r: "0 \<le> r" "r < int (length b)" and c: "0 \<le> c" "c < BOARD_SIZE"
    by (simp_all add: wf_board_def in_range_def)
  from r have "b ! nat r \<in> set b" by simp
  with assms(1) have "int (length (b ! nat r)) = BOARD_SIZE"
    by (simp add: wf_board_def list_all_iff)
  with r c show ?thesis
    by (simp add: cell_at_def at_def)
qed

lemma set_cell_wf:
  assumes "wf_board b" and "in_range (r, c)"
  shows "set_cell b r c v = Inr (upd b (r, c) v)"
proof -
  from assms have r: "0 \<le> r" "r < BOARD_SIZE" and c: "0 \<le> c" "c < BOARD_SIZE"
    by (simp_all add: in_range_def)
  from assms(1) r have "r < int (length b)" by (simp add: wf_board_def)
  with wf_board_row [OF assms(1) r] r c show ?thesis
    by (simp add: set_cell_def upd_def)
qed

lemma assign_wf:
  assumes "wf_board (board s)" and "in_range (r, c)"
  shows "assign r c v s = Some (Done () (s\<lparr>board := upd (board s) (r, c) v\<rparr>))"
  by (simp add: assign_def set_cell_wf [OF assms])

lemma wf_board_upd:
  assumes "wf_board b"
  shows "wf_board (upd b p v)"
proof (cases "nat (fst p) < length b")
  case False
  then have "length b \<le> nat (fst p)" by simp
  then have "upd b p v = b" unfolding upd_def by (rule list_update_beyond)
  with assms show ?thesis by simp
next
  case True
  let ?row = "(b ! nat (fst p))[nat (snd p) := v]"
  from True have "b ! nat (fst p) \<in> set b" by simp
  with assms have len: "int (length ?row) = BOARD_SIZE"
    by (simp add: wf_board_def list_all_iff)
  have sub: "set (upd b p v) \<subseteq> insert ?row (set b)"
    unfolding upd_def by (rule set_update_subset_insert)
  have rows: "int (length row) = BOARD_SIZE" if "row \<in> set (upd b p v)" for row
  proof -
    from that sub have "row = ?row \<or> row \<in> set b" by blast
    with assms len show ?thesis by (auto simp: wf_board_def list_all_iff)
  qed
  have "length (upd b p v) = length b" by (simp add: upd_def)
  with assms rows show ?thesis
    unfolding wf_board_def list_all_iff by simp
qed

lemma at_upd:
  assumes "wf_board b" and "in_range p" and "in_range q"
  shows "at (upd b p v) q = (if q = p then v else at b q)"
proof -
  from assms have p: "0 \<le> fst p" "fst p < BOARD_SIZE" "0 \<le> snd p" "snd p < BOARD_SIZE"
    and q: "0 \<le> fst q" "fst q < BOARD_SIZE" "0 \<le> snd q" "snd q < BOARD_SIZE"
    by (simp_all add: in_range_def)
  from wf_board_index [OF assms(1) p(1,2)] have len: "nat (fst p) < length b" .
  from wf_board_row [OF assms(1) p(1,2)] p have row: "nat (snd p) < length (b ! nat (fst p))"
    by (simp add: nat_less_iff)
  show ?thesis
  proof (cases "fst q = fst p")
    case True
    with p q len row show ?thesis
      by (cases "snd q = snd p") (auto simp: at_def upd_def prod_eq_iff nth_list_update)
  next
    case False
    with p q have "nat (fst q) \<noteq> nat (fst p)" by simp
    with False show ?thesis
      by (auto simp: at_def upd_def)
  qed
qed

lemma at_fold_upd:
  "wf_board b \<Longrightarrow> \<forall>x \<in> set ps. in_range x \<Longrightarrow> in_range q \<Longrightarrow>
     at (fold (\<lambda>x b'. upd b' x v) ps b) q = (if q \<in> set ps then v else at b q)"
proof (induction ps arbitrary: b)
  case Nil
  then show ?case by simp
next
  case (Cons x xs)
  from Cons.prems have x: "in_range x" and xs: "\<forall>x \<in> set xs. in_range x" by simp_all
  from Cons.IH [OF wf_board_upd [OF Cons.prems(1)] xs Cons.prems(3)]
    at_upd [OF Cons.prems(1) x Cons.prems(3)]
  show ?case by auto
qed

lemma wf_board_place:
  assumes "wf_board b"
  shows "wf_board (place b p v ps)"
proof -
  have "wf_board b' \<Longrightarrow> wf_board (fold (\<lambda>q b'. upd b' q v) ps b')" for b'
    by (induction ps arbitrary: b') (simp_all add: wf_board_upd)
  then show ?thesis
    unfolding place_def using wf_board_upd [OF assms] by blast
qed

lemma at_place:
  assumes "wf_board b" and "in_range p" and "\<forall>x \<in> set ps. in_range x" and "in_range q"
  shows "at (place b p v ps) q = (if q = p \<or> q \<in> set ps then v else at b q)"
  unfolding place_def
  using at_fold_upd [OF wf_board_upd [OF assms(1)] assms(3,4)] at_upd [OF assms(1,2,4)]
  by auto

lemma wf_empty_board: "wf_board (replicate (nat BOARD_SIZE) (replicate (nat BOARD_SIZE) EMPTY))"
  by (simp add: wf_board_def BOARD_SIZE_def list_all_iff)

lemma upto_board: "\<forall>i \<in> set [0 .. BOARD_SIZE - 1]. 0 \<le> i \<and> i < BOARD_SIZE"
  by simp

lemma opposite_player:
  assumes "p = BLACK \<or> p = WHITE"
  shows "opposite p = BLACK \<or> opposite p = WHITE"
  by (simp add: opposite_def)

lemma opposite_opposite:
  assumes "p = BLACK \<or> p = WHITE"
  shows "opposite (opposite p) = p"
  using assms by (auto simp: opposite_def)

subsection \<open>The walk in one direction\<close>

text \<open>On a well-formed board the loop of one direction ends, and what it pushes is the closed opponent run of the ray.\<close>

lemma walk_scan:
  assumes wf: "wf_board (board s)"
  shows "\<not> in_range (nr + int n * dr, nc + int n * dc) \<Longrightarrow>
     walk player opp dr dc nr nc line s =
       Some (Done (scan (board s) player opp (takeWhile in_range (steps n (dr, dc) (nr, nc))) line) s)"
proof (induction n arbitrary: nr nc line)
  case 0
  then have guard: "\<not> (nr \<ge> 0 \<and> nr < BOARD_SIZE \<and> nc \<ge> 0 \<and> nc < BOARD_SIZE)"
    by (simp add: in_range_def)
  show ?case
    by (subst walk.simps) (simp only: guard if_False takeWhile.simps steps.simps scan.simps)
next
  case (Suc n)
  show ?case
  proof (cases "in_range (nr, nc)")
    case False
    then have guard: "\<not> (nr \<ge> 0 \<and> nr < BOARD_SIZE \<and> nc \<ge> 0 \<and> nc < BOARD_SIZE)"
      by (simp add: in_range_def)
    show ?thesis
      by (subst walk.simps) (simp only: guard if_False False takeWhile.simps steps.simps scan.simps)
  next
    case True
    from Suc.prems have far: "\<not> in_range ((nr + dr) + int n * dr, (nc + dc) + int n * dc)"
      by (simp add: algebra_simps)
    note ih = Suc.IH [OF far]
    from True have guard: "nr \<ge> 0 \<and> nr < BOARD_SIZE \<and> nc \<ge> 0 \<and> nc < BOARD_SIZE"
      by (simp add: in_range_def)
    show ?thesis
      by (subst walk.simps) (simp add: guard cell_at_wf [OF wf True] True ih)
  qed
qed

lemma scan_spec:
  assumes "player = BLACK \<and> opp = WHITE \<or> player = WHITE \<and> opp = BLACK"
  shows "scan b player opp ps line =
     (if run_closed b player opp ps then line @ opponent_run b opp ps else [])"
  using assms
proof (induction ps arbitrary: line)
  case Nil
  then show ?case by (simp add: run_closed_def)
next
  case (Cons p ps)
  then show ?case
    by (cases "at b p") (auto simp: run_closed_def opponent_run_def)
qed

lemma steps_map:
  "steps n d (r + j * fst d, c + j * snd d) =
     map (\<lambda>k. (r + k * fst d, c + k * snd d)) [j .. j + int n - 1]"
proof (induction n arbitrary: j)
  case 0
  then show ?case by simp
next
  case (Suc n)
  have "steps n d (r + (j + 1) * fst d, c + (j + 1) * snd d) =
          map (\<lambda>k. (r + k * fst d, c + k * snd d)) [j + 1 .. j + 1 + int n - 1]"
    by (rule Suc.IH)
  moreover have "[j .. j + int (Suc n) - 1] = j # [j + 1 .. j + 1 + int n - 1]"
    by (subst upto_rec1) simp_all
  ultimately show ?case
    by (simp add: algebra_simps)
qed

lemma ray_steps: "ray r c d = takeWhile in_range (steps 7 d (r + fst d, c + snd d))"
  using steps_map [of 7 d r 1 c] by (simp add: ray_def BOARD_SIZE_def)

lemma DIRECTIONS_leave_board:
  assumes "in_range (r, c)" and "d \<in> set DIRECTIONS"
  shows "\<not> in_range (r + fst d + int 7 * fst d, c + snd d + int 7 * snd d)"
  using assms by (auto simp: DIRECTIONS_def in_range_def BOARD_SIZE_def)

lemma walk_spec_line:
  assumes wf: "wf_board (board s)" and rc: "in_range (r, c)"
    and d: "(dr, dc) \<in> set DIRECTIONS" and pl: "player = BLACK \<or> player = WHITE"
  shows "walk player (opposite player) dr dc (r + dr) (c + dc) [] s =
           Some (Done (spec_line (board s) r c player (dr, dc)) s)"
proof -
  from DIRECTIONS_leave_board [OF rc d]
  have far: "\<not> in_range (r + dr + int 7 * dr, c + dc + int 7 * dc)" by simp
  from pl have opp: "player = BLACK \<and> opposite player = WHITE \<or>
      player = WHITE \<and> opposite player = BLACK"
    by (auto simp: opposite_def)
  show ?thesis
    unfolding walk_scan [OF wf far] scan_spec [OF opp] spec_line_def ray_steps
    by simp
qed

lemma forEach_direction_concat:
  assumes "\<And>dr dc. (dr, dc) \<in> set ds \<Longrightarrow>
     walk player opp dr dc (r + dr) (c + dc) [] s = Some (Done (f (dr, dc)) s)"
  shows "forEach_direction r c player opp ds flippable s =
           Some (Done (flippable @ concat (map f ds)) s)"
  using assms
proof (induction ds arbitrary: flippable)
  case Nil
  then show ?case by simp
next
  case (Cons d ds)
  obtain dr dc where d: "d = (dr, dc)" by (cases d)
  from Cons.prems have "walk player opp dr dc (r + dr) (c + dc) [] s = Some (Done (f (dr, dc)) s)"
    by (simp add: d)
  moreover from Cons have "\<And>acc. forEach_direction r c player opp ds acc s =
      Some (Done (acc @ concat (map f ds)) s)"
    by simp
  ultimately show ?case
    by (simp add: d)
qed

lemma spec_directions_DIRECTIONS: "spec_directions = DIRECTIONS"
  by (simp add: spec_directions_def DIRECTIONS_def)

subsection \<open>getFlippablePieces on a well-formed board\<close>

lemma getFlippablePieces_empty_cell:
  assumes wf: "wf_board (board s)" and rc: "in_range (r, c)"
    and pl: "player = BLACK \<or> player = WHITE"
    and empty: "at (board s) (r, c) = EMPTY"
  shows "getFlippablePieces r c player s =
           Some (Done (spec_flippablePieces (board s) r c player) s)"
proof -
  from rc have guard: "\<not> (r < 0 \<or> r \<ge> BOARD_SIZE \<or> c < 0 \<or> c \<ge> BOARD_SIZE)"
    by (auto simp: in_range_def)
  have "forEach_direction r c player (opposite player) DIRECTIONS [] s =
      Some (Done ([] @ concat (map (spec_line (board s) r c player) DIRECTIONS)) s)"
    by (rule forEach_direction_concat) (rule walk_spec_line [OF wf rc _ pl])
  then show ?thesis
    using guard empty
    by (simp add: getFlippablePieces_def cell_at_wf [OF wf rc] opposite_def
        spec_flippablePieces_def spec_directions_DIRECTIONS)
qed

lemma getFlippablePieces_occupied:
  assumes wf: "wf_board (board s)" and rc: "in_range (r, c)"
    and occ: "at (board s) (r, c) \<noteq> EMPTY"
  shows "getFlippablePieces r c player s = Some (Done [] s)"
  using occ by (simp add: getFlippablePieces_def cell_at_wf [OF wf rc])

lemma getFlippablePieces_wf:
  assumes "wf_board (board s)" and "in_range (r, c)" and "player = BLACK \<or> player = WHITE"
  shows "getFlippablePieces r c player s = Some (Done (flips (board s) r c player) s)"
  using getFlippablePieces_empty_cell [OF assms] getFlippablePieces_occupied [OF assms(1,2)]
  by (simp add: flips_def)

lemma getFlippablePieces_row_out:
  assumes "wf_board (board s)" and "r < 0 \<or> BOARD_SIZE \<le> r"
  shows "getFlippablePieces r c player s = Some (Threw TypeError s)"
proof -
  from assms have "\<not> (0 \<le> r \<and> r < int (length (board s)))"
    by (auto simp: wf_board_def)
  then have "cell_at (board s) r c = Inl TypeError"
    unfolding cell_at_def by (simp only: if_False)
  then show ?thesis by (simp add: getFlippablePieces_def)
qed

lemma getFlippablePieces_col_out:
  assumes "wf_board (board s)" and "0 \<le> r" and "r < BOARD_SIZE" and "c < 0 \<or> BOARD_SIZE \<le> c"
  shows "getFlippablePieces r c player s = Some (Done [] s)"
proof -
  from assms(1-3) have row: "0 \<le> r \<and> r < int (length (board s))"
    by (simp add: wf_board_def)
  from wf_board_row [OF assms(1-3)] assms(4)
  have col: "\<not> (0 \<le> c \<and> c < int (length (board s ! nat r)))" by auto
  have "cell_at (board s) r c = Inr None"
    unfolding cell_at_def Let_def by (simp only: row col if_True if_False simp_thms)
  then show ?thesis by (simp add: getFlippablePieces_def)
qed

lemma getFlippablePieces_cases:
  assumes wf: "wf_board (board s)" and pl: "player = BLACK \<or> player = WHITE"
  shows "getFlippablePieces r c player s =
     (if r < 0 \<or> BOARD_SIZE \<le> r then Some (Threw TypeError s)
      else if c < 0 \<or> BOARD_SIZE \<le> c then Some (Done [] s)
      else Some (Done (flips (board s) r c player) s))"
proof -
  consider "r < 0 \<or> BOARD_SIZE \<le> r"
    | "0 \<le> r" "r < BOARD_SIZE" "c < 0 \<or> BOARD_SIZE \<le> c"
    | "in_range (r, c)"
    unfolding in_range_def fst_conv snd_conv by linarith
  then show ?thesis
  proof cases
    case 1
    with getFlippablePieces_row_out [OF wf this] show ?thesis by simp
  next
    case 2
    with getFlippablePieces_col_out [OF wf this] show ?thesis by auto
  next
    case 3
    with getFlippablePieces_wf [OF wf this pl] show ?thesis
      by (auto simp: in_range_def)
  qed
qed

lemma getFlippablePieces_nonempty:
  assumes "wf_board (board s)" and "player = BLACK \<or> player = WHITE"
    and "getFlippablePieces r c player s = Some (Done flippable s')" and "flippable \<noteq> []"
  shows "in_range (r, c)" and "flippable = flips (board s) r c player"
  using assms(3,4) unfolding getFlippablePieces_cases [OF assms(1,2)]
  by (auto simp: in_range_def split: if_splits)

subsection \<open>The cells of a flip list\<close>

lemma ray_member:
  assumes "p \<in> set (ray r c d)"
  shows "in_range p \<and> (\<exists>k. 1 \<le> k \<and> k \<le> 7 \<and> p = (r + k * fst d, c + k * snd d))"
proof -
  from assms have "p \<in> set (map (\<lambda>k. (r + k * fst d, c + k * snd d)) [1 .. BOARD_SIZE - 1])"
    and "in_range p"
    unfolding ray_def by (auto dest: set_takeWhileD)
  then show ?thesis
    by (auto simp: BOARD_SIZE_def)
qed

lemma spec_line_member:
  assumes "p \<in> set (spec_line b r c player d)"
  shows "p \<in> set (ray r c d) \<and> at b p = opposite player"
  using assms
  by (auto simp: spec_line_def opponent_run_def split: if_splits dest: set_takeWhileD)

lemma DIRECTIONS_unit:
  assumes "d \<in> set DIRECTIONS"
  shows "fst d \<in> {-1, 0, 1}" and "snd d \<in> {-1, 0, 1}" and "fst d \<noteq> 0 \<or> snd d \<noteq> 0"
  using assms by (auto simp: DIRECTIONS_def)

lemma ray_distinct:
  assumes "d \<in> set DIRECTIONS"
  shows "distinct (ray r c d)"
proof -
  have "inj_on (\<lambda>k. (r + k * fst d, c + k * snd d)) A" for A
  proof (rule inj_onI)
    fix k k' :: int
    assume "(r + k * fst d, c + k * snd d) = (r + k' * fst d, c + k' * snd d)"
    then have "k * fst d = k' * fst d" and "k * snd d = k' * snd d"
      by simp_all
    with DIRECTIONS_unit(3) [OF assms] show "k = k'"
      by auto
  qed
  then have "distinct (map (\<lambda>k. (r + k * fst d, c + k * snd d)) [1 .. BOARD_SIZE - 1])"
    by (simp only: distinct_map distinct_upto simp_thms)
  then show ?thesis
    unfolding ray_def by (rule distinct_takeWhile)
qed

lemma spec_line_distinct:
  assumes "d \<in> set DIRECTIONS"
  shows "distinct (spec_line b r c player d)"
  using ray_distinct [OF assms, of r c]
  by (simp add: spec_line_def opponent_run_def distinct_takeWhile)

lemma sgn_step:
  fixes k x :: int
  assumes "1 \<le> k" and "x \<in> {-1, 0, 1}"
  shows "sgn (k * x) = x"
  using assms by (auto simp: sgn_mult)

lemma ray_disjoint:
  assumes "d \<in> set DIRECTIONS" and "d' \<in> set DIRECTIONS" and "d \<noteq> d'"
  shows "set (ray r c d) \<inter> set (ray r c d') = {}"
proof -
  have False if "p \<in> set (ray r c d)" and "p \<in> set (ray r c d')" for p
  proof -
    from ray_member [OF that(1)] obtain k where
      k: "1 \<le> k" "p = (r + k * fst d, c + k * snd d)" by blast
    from ray_member [OF that(2)] obtain k' where
      k': "1 \<le> k'" "p = (r + k' * fst d', c + k' * snd d')" by blast
    from k k' have eq: "k * fst d = k' * fst d'" "k * snd d = k' * snd d'"
      by simp_all
    have "fst d = sgn (k * fst d)" "snd d = sgn (k * snd d)"
      using sgn_step [OF k(1)] DIRECTIONS_unit [OF assms(1)] by simp_all
    moreover have "fst d' = sgn (k' * fst d')" "snd d' = sgn (k' * snd d')"
      using sgn_step [OF k'(1)] DIRECTIONS_unit [OF assms(2)] by simp_all
    ultimately have "d = d'"
      using eq by (simp add: prod_eq_iff)
    with assms(3) show False by simp
  qed
  then show ?thesis by blast
qed

lemma distinct_concat_map:
  assumes "distinct ds"
    and "\<And>d. d \<in> set ds \<Longrightarrow> distinct (f d)"
    and "\<And>d d'. d \<in> set ds \<Longrightarrow> d' \<in> set ds \<Longrightarrow> d \<noteq> d' \<Longrightarrow> set (f d) \<inter> set (f d') = {}"
  shows "distinct (concat (map f ds))"
  using assms
proof (induction ds)
  case Nil
  then show ?case by simp
next
  case (Cons d ds)
  have "set (f d) \<inter> set (f d') = {}" if "d' \<in> set ds" for d'
    using Cons.prems(1) Cons.prems(3) [of d d'] that by auto
  moreover have "distinct (concat (map f ds))"
    using Cons by simp
  ultimately show ?case
    using Cons.prems(2) [of d] by auto
qed

lemma spec_flippablePieces_distinct: "distinct (spec_flippablePieces b r c player)"
  unfolding spec_flippablePieces_def spec_directions_DIRECTIONS
proof (rule distinct_concat_map)
  show "distinct DIRECTIONS" by (simp add: DIRECTIONS_def)
next
  fix d assume "d \<in> set DIRECTIONS"
  then show "distinct (spec_line b r c player d)" by (rule spec_line_distinct)
next
  fix d d' assume "d \<in> set DIRECTIONS" "d' \<in> set DIRECTIONS" "d \<noteq> d'"
  from ray_disjoint [OF this, of r c]
  show "set (spec_line b r c player d) \<inter> set (spec_line b r c player d') = {}"
    using spec_line_member [of _ b r c player] by blast
qed

lemma spec_flippablePieces_member:
  assumes "p \<in> set (spec_flippablePieces b r c player)"
  shows "in_range p \<and> at b p = opposite player \<and> p \<noteq> (r, c)"
proof -
  from assms obtain d where d: "d \<in> set DIRECTIONS" and p: "p \<in> set (spec_line b r c player d)"
    by (auto simp: spec_flippablePieces_def spec_directions_DIRECTIONS)
  from spec_line_member [OF p] have ray: "p \<in> set (ray r c d)"
    and opp: "at b p = opposite player" by simp_all
  from ray_member [OF ray] obtain k where "in_range p" "1 \<le> k"
    "p = (r + k * fst d, c + k * snd d)" by blast
  with d opp show ?thesis
    by (auto simp: DIRECTIONS_def)
qed

lemma flips_in_range:
  assumes "p \<in> set (flips b r c player)"
  shows "in_range p" and "at b p = opposite player" and "p \<noteq> (r, c)"
  using assms spec_flippablePieces_member [of p b r c player]
  by (simp_all add: flips_def split: if_splits)

lemma move_cells:
  assumes wf: "wf_board b" and rc: "in_range (r, c)"
    and fl: "flips b r c player \<noteq> []"
  shows "at (place b (r, c) player (flips b r c player)) (r, c) = player"
    and "\<forall>p \<in> set (flips b r c player).
           at b p = opposite player \<and> at (place b (r, c) player (flips b r c player)) p = player"
    and "\<forall>q. in_range q \<and> q \<noteq> (r, c) \<and> q \<notin> set (flips b r c player) \<longrightarrow>
           at (place b (r, c) player (flips b r c player)) q = at b q"
proof -
  have rng: "\<forall>x \<in> set (flips b r c player). in_range x" using flips_in_range(1) by blast
  note ap = at_place [OF wf rc rng]
  show "at (place b (r, c) player (flips b r c player)) (r, c) = player"
    using ap [OF rc] by simp
  show "\<forall>p \<in> set (flips b r c player).
      at b p = opposite player \<and> at (place b (r, c) player (flips b r c player)) p = player"
    using ap flips_in_range(1,2) [of _ b r c player] by simp
  show "\<forall>q. in_range q \<and> q \<noteq> (r, c) \<and> q \<notin> set (flips b r c player) \<longrightarrow>
      at (place b (r, c) player (flips b r c player)) q = at b q"
    using ap by simp
qed

subsection \<open>The cells of the board and getValidMoves\<close>

lemma all_positions_product:
  "all_positions = List.product [0 .. BOARD_SIZE - 1] [0 .. BOARD_SIZE - 1]"
  by (simp add: all_positions_def product_concat_map)

lemma set_all_positions: "set all_positions = {p. in_range p}"
  by (auto simp: all_positions_product in_range_def)

lemma distinct_all_positions: "distinct all_positions"
  by (simp add: all_positions_product distinct_product)

lemma finite_in_range: "finite {p. in_range p}"
  using finite_set [of all_positions] by (simp only: set_all_positions)

lemma sorted_wrt_row_major_rows:
  assumes "sorted_wrt (<) cs"
  shows "sorted_wrt (<) rs \<Longrightarrow>
     sorted_wrt row_major (concat (map (\<lambda>r. map (Pair r) cs) rs))"
proof (induction rs)
  case Nil
  then show ?case by simp
next
  case (Cons r rs)
  have "sorted_wrt row_major (map (Pair r) cs)"
    using assms by (simp add: sorted_wrt_map row_major_def)
  moreover have "sorted_wrt row_major (concat (map (\<lambda>r. map (Pair r) cs) rs))"
    using Cons by simp
  moreover have "row_major p q"
    if "p \<in> set (map (Pair r) cs)" and "q \<in> set (concat (map (\<lambda>r. map (Pair r) cs) rs))"
    for p q
    using that Cons.prems by (auto simp: row_major_def)
  ultimately show ?case
    by (simp add: sorted_wrt_append)
qed

lemma sorted_wrt_all_positions: "sorted_wrt row_major all_positions"
  unfolding all_positions_def by (rule sorted_wrt_row_major_rows) simp_all

lemma valid_moves_row_major:
  "sorted_wrt row_major (valid_moves b player)" "distinct (valid_moves b player)"
  unfolding valid_moves_def
  by (simp_all add: sorted_wrt_filter sorted_wrt_all_positions distinct_all_positions)

lemma valid_moves_member:
  "(r, c) \<in> set (valid_moves b player) \<longleftrightarrow> in_range (r, c) \<and> flips b r c player \<noteq> []"
  by (auto simp: valid_moves_def set_all_positions)

lemma getValidMoves_cols_wf:
  assumes wf: "wf_board (board s)" and pl: "player = BLACK \<or> player = WHITE"
    and r: "0 \<le> r" "r < BOARD_SIZE"
  shows "\<forall>c \<in> set cs. 0 \<le> c \<and> c < BOARD_SIZE \<Longrightarrow>
     getValidMoves_cols player r cs validMoves s =
       Some (Done (validMoves @
         filter (\<lambda>(r, c). flips (board s) r c player \<noteq> []) (map (Pair r) cs)) s)"
proof (induction cs arbitrary: validMoves)
  case Nil
  then show ?case by simp
next
  case (Cons c cs)
  then have "in_range (r, c)" using r by (simp add: in_range_def)
  from getFlippablePieces_wf [OF wf this pl] Cons show ?case
    by simp
qed

lemma getValidMoves_rows_wf:
  assumes wf: "wf_board (board s)" and pl: "player = BLACK \<or> player = WHITE"
  shows "\<forall>r \<in> set rs. 0 \<le> r \<and> r < BOARD_SIZE \<Longrightarrow>
     getValidMoves_rows player rs validMoves s =
       Some (Done (validMoves @
         filter (\<lambda>(r, c). flips (board s) r c player \<noteq> [])
           (concat (map (\<lambda>r. map (Pair r) [0 .. BOARD_SIZE - 1]) rs))) s)"
proof (induction rs arbitrary: validMoves)
  case Nil
  then show ?case by simp
next
  case (Cons r rs)
  then have r: "0 \<le> r" "r < BOARD_SIZE" by simp_all
  from getValidMoves_cols_wf [OF wf pl r upto_board] Cons show ?case
    by simp
qed

lemma getValidMoves_wf:
  assumes "wf_board (board s)" and "player = BLACK \<or> player = WHITE"
  shows "getValidMoves player s = Some (Done (valid_moves (board s) player) s)"
  using getValidMoves_rows_wf [OF assms upto_board, of "[]"]
  by (simp add: getValidMoves_def valid_moves_def all_positions_def)

subsection \<open>Counting discs\<close>

lemma count_cols_wf:
  assumes wf: "wf_board (board s)" and r: "0 \<le> r" "r < BOARD_SIZE"
  shows "\<forall>c \<in> set cs. 0 \<le> c \<and> c < BOARD_SIZE \<Longrightarrow>
     count_cols r cs (blackCount, whiteCount) s =
       Some (Done
         (blackCount + length (filter (\<lambda>p. at (board s) p = BLACK) (map (Pair r) cs)),
          whiteCount + length (filter (\<lambda>p. at (board s) p = WHITE) (map (Pair r) cs))) s)"
proof (induction cs arbitrary: blackCount whiteCount)
  case Nil
  then show ?case by simp
next
  case (Cons c cs)
  then have "in_range (r, c)" using r by (simp add: in_range_def)
  from cell_at_wf [OF wf this] Cons show ?case
    by simp
qed

lemma count_rows_wf:
  assumes wf: "wf_board (board s)"
  shows "\<forall>r \<in> set rs. 0 \<le> r \<and> r < BOARD_SIZE \<Longrightarrow>
     count_rows rs (blackCount, whiteCount) s =
       Some (Done
         (blackCount + length (filter (\<lambda>p. at (board s) p = BLACK)
            (concat (map (\<lambda>r. map (Pair r) [0 .. BOARD_SIZE - 1]) rs))),
          whiteCount + length (filter (\<lambda>p. at (board s) p = WHITE)
            (concat (map (\<lambda>r. map (Pair r) [0 .. BOARD_SIZE - 1]) rs)))) s)"
proof (induction rs arbitrary: blackCount whiteCount)
  case Nil
  then show ?case by simp
next
  case (Cons r rs)
  then have r: "0 \<le> r" "r < BOARD_SIZE" by simp_all
  from count_cols_wf [OF wf r upto_board] Cons show ?case
    by simp
qed

lemma count_board_wf:
  assumes "wf_board (board s)"
  shows "count_rows [0 .. BOARD_SIZE - 1] (0, 0) s =
           Some (Done (count_of (board s) BLACK, count_of (board s) WHITE) s)"
  using count_rows_wf [OF assms upto_board, of 0 0]
  by (simp add: count_of_def all_positions_def)

lemma updateScore_wf:
  assumes "wf_board (board s)"
  shows "updateScore s =
           Some (Done () (s\<lparr>score := (count_of (board s) BLACK, count_of (board s) WHITE)\<rparr>))"
  by (simp add: updateScore_def count_board_wf [OF assms])

lemma endGame_wf:
  assumes "wf_board (board s)"
  shows "endGame s =
           Some (Done ()
             (s\<lparr>message := result_message (count_of (board s) BLACK) (count_of (board s) WHITE)\<rparr>))"
  by (simp add: endGame_def count_board_wf [OF assms] result_message_def)

lemma count_of_total:
  "count_of b BLACK + count_of b WHITE = length (filter (\<lambda>p. at b p \<noteq> EMPTY) all_positions)"
proof -
  have "length (filter (\<lambda>p. at b p = BLACK) ps) + length (filter (\<lambda>p. at b p = WHITE) ps)
      = length (filter (\<lambda>p. at b p \<noteq> EMPTY) ps)" for ps
  proof (induction ps)
    case Nil
    then show ?case by simp
  next
    case (Cons p ps)
    then show ?case by (cases "at b p") simp_all
  qed
  then show ?thesis by (simp add: count_of_def)
qed

lemma count_of_card:
  "count_of b v = card {p. in_range p \<and> at b p = v}"
proof -
  have "{p. at b p = v} \<inter> set all_positions = {p. in_range p \<and> at b p = v}"
    by (auto simp: set_all_positions)
  then show ?thesis
    by (simp add: count_of_def distinct_length_filter [OF distinct_all_positions])
qed

lemma total_place:
  assumes wf: "wf_board b" and p: "in_range p" and empty: "at b p = EMPTY"
    and v: "v \<noteq> EMPTY" and ps: "\<forall>q \<in> set ps. in_range q \<and> at b q \<noteq> EMPTY"
  shows "count_of (place b p v ps) BLACK + count_of (place b p v ps) WHITE =
           count_of b BLACK + count_of b WHITE + 1"
proof -
  let ?occ = "\<lambda>b. {q. in_range q \<and> at b q \<noteq> EMPTY}"
  have total: "count_of b BLACK + count_of b WHITE = card (?occ b)" for b
  proof -
    have "{q. at b q \<noteq> EMPTY} \<inter> set all_positions = ?occ b"
      by (auto simp: set_all_positions)
    then show ?thesis
      by (simp add: count_of_total distinct_length_filter [OF distinct_all_positions])
  qed
  from ps have rng: "\<forall>q \<in> set ps. in_range q" by blast
  have "at (place b p v ps) q \<noteq> EMPTY \<longleftrightarrow> q = p \<or> at b q \<noteq> EMPTY" if q: "in_range q" for q
  proof (cases "q = p \<or> q \<in> set ps")
    case True
    with at_place [OF wf p rng q] have "at (place b p v ps) q = v" by simp
    with True v ps show ?thesis by auto
  next
    case False
    with at_place [OF wf p rng q] have "at (place b p v ps) q = at b q" by simp
    with False show ?thesis by simp
  qed
  with p have "?occ (place b p v ps) = insert p (?occ b)"
    by auto
  moreover have "p \<notin> ?occ b" using empty by simp
  moreover have "finite (?occ b)" using finite_in_range by simp
  ultimately have "card (?occ (place b p v ps)) = Suc (card (?occ b))"
    by simp
  then show ?thesis by (simp add: total)
qed

lemma total_discs_move:
  assumes wf: "wf_board b" and rc: "in_range (r, c)" and pl: "player = BLACK \<or> player = WHITE"
    and fl: "flips b r c player \<noteq> []"
  shows "total_discs (place b (r, c) player (flips b r c player)) = total_discs b + 1"
proof -
  from fl have e: "at b (r, c) = EMPTY" by (auto simp: flips_def split: if_splits)
  from pl have v: "player \<noteq> EMPTY" by auto
  have "\<forall>q \<in> set (flips b r c player). in_range q \<and> at b q \<noteq> EMPTY"
    using flips_in_range(1,2) [of _ b r c player] by (auto simp: opposite_def)
  from total_place [OF wf rc e v this] show ?thesis
    by (simp add: total_discs_def)
qed

subsection \<open>Status, moves and runs\<close>

text \<open>What renderBoard and handleMove leave behind in a game, and the invariant of a game.\<close>

lemma renderBoard_wf:
  assumes wf: "wf_board (board s)" and pl: "currentPlayer s = BLACK \<or> currentPlayer s = WHITE"
  shows "renderBoard s = Some (Done () (rendered s))"
proof -
  let ?s1 = "s\<lparr>score := (count_of (board s) BLACK, count_of (board s) WHITE)\<rparr>"
  have wf1: "wf_board (board ?s1)" using wf by simp
  have next_moves: "getValidMoves (opposite (currentPlayer s)) ?s1 =
      Some (Done (valid_moves (board s) (opposite (currentPlayer s))) ?s1)"
    using getValidMoves_wf [OF wf1 opposite_player [OF pl]] by simp
  have check: "checkGameStatus (valid_moves (board s) (currentPlayer s)) s =
      Some (Done () (rendered s))"
    unfolding checkGameStatus_def updateScore_wf [OF wf] bind_Done
    using next_moves endGame_wf [OF wf1]
    by (simp add: rendered_def Let_def opposite_def)
  show ?thesis
    unfolding renderBoard_def getValidMoves_wf [OF wf pl] bind_Done by (rule check)
qed

lemma rendered_frame:
  "board (rendered s) = board s" "currentPlayer (rendered s) = currentPlayer s"
  by (simp_all add: rendered_def Let_def)

lemma rendered_turn:
  assumes "valid_moves (board s) (currentPlayer s) \<noteq> []"
  shows "rendered s =
     s\<lparr>score := (count_of (board s) BLACK, count_of (board s) WHITE),
       message := TurnMessage (colour_of (currentPlayer s))\<rparr>"
  using assms by (simp add: rendered_def colour_of_def Let_def)

lemma rendered_pass:
  assumes "valid_moves (board s) (currentPlayer s) = []"
    and "valid_moves (board s) (opposite (currentPlayer s)) \<noteq> []"
  shows "rendered s =
     s\<lparr>score := (count_of (board s) BLACK, count_of (board s) WHITE),
       message := PassMessage (colour_of (currentPlayer s)) (colour_of (opposite (currentPlayer s))),
       timers := timers s @ [opposite (currentPlayer s)]\<rparr>"
  using assms by (simp add: rendered_def colour_of_def Let_def)

lemma rendered_end:
  assumes "valid_moves (board s) (currentPlayer s) = []"
    and "valid_moves (board s) (opposite (currentPlayer s)) = []"
  shows "rendered s =
     s\<lparr>score := (count_of (board s) BLACK, count_of (board s) WHITE),
       message := result_message (count_of (board s) BLACK) (count_of (board s) WHITE)\<rparr>"
  using assms by (simp add: rendered_def Let_def)

lemma forEach_flip_wf:
  "wf_board (board s) \<Longrightarrow> \<forall>p \<in> set ps. in_range p \<Longrightarrow>
     forEach_flip ps s =
       Some (Done () (s\<lparr>board := fold (\<lambda>q b'. upd b' q (currentPlayer s)) ps (board s)\<rparr>))"
proof (induction ps arbitrary: s)
  case Nil
  then show ?case by simp
next
  case (Cons p ps)
  obtain pr pc where p: "p = (pr, pc)" by (cases p)
  let ?s' = "s\<lparr>board := upd (board s) (pr, pc) (currentPlayer s)\<rparr>"
  from Cons.prems p have rc: "in_range (pr, pc)" by simp
  have a: "assign pr pc (currentPlayer s) s = Some (Done () ?s')"
    by (simp add: assign_def set_cell_wf [OF Cons.prems(1) rc])
  have "wf_board (board ?s')" using wf_board_upd [OF Cons.prems(1)] by simp
  from Cons.IH [OF this] Cons.prems(2) show ?case
    by (simp add: p a)
qed

lemma handleMove_wf:
  assumes wf: "wf_board (board s)" and rc: "in_range (r, c)"
    and pl: "currentPlayer s = BLACK \<or> currentPlayer s = WHITE"
  shows "handleMove r c s =
     (if flips (board s) r c (currentPlayer s) = [] then Some (Done () s)
      else Some (Done ()
        (rendered (s\<lparr>board := place (board s) (r, c) (currentPlayer s)
                                 (flips (board s) r c (currentPlayer s)),
                     currentPlayer := opposite (currentPlayer s)\<rparr>))))"
proof (cases "flips (board s) r c (currentPlayer s) = []")
  case True
  then show ?thesis
    by (simp add: handleMove_def getFlippablePieces_wf [OF wf rc pl])
next
  case False
  let ?fl = "flips (board s) r c (currentPlayer s)"
  let ?s2 = "s\<lparr>board := upd (board s) (r, c) (currentPlayer s)\<rparr>"
  let ?s3 = "s\<lparr>board := place (board s) (r, c) (currentPlayer s) ?fl\<rparr>"
  have a: "assign r c (currentPlayer s) s = Some (Done () ?s2)"
    by (simp add: assign_def set_cell_wf [OF wf rc])
  have wf2: "wf_board (board ?s2)" using wf_board_upd [OF wf] by simp
  have "\<forall>p \<in> set ?fl. in_range p" using flips_in_range(1) by blast
  from forEach_flip_wf [OF wf2 this]
  have f: "forEach_flip ?fl ?s2 = Some (Done () ?s3)"
    by (simp add: place_def)
  have wf3: "wf_board (board (?s3\<lparr>currentPlayer := opposite (currentPlayer s)\<rparr>))"
    using wf_board_place [OF wf] by simp
  have pl3: "currentPlayer (?s3\<lparr>currentPlayer := opposite (currentPlayer s)\<rparr>) = BLACK
      \<or> currentPlayer (?s3\<lparr>currentPlayer := opposite (currentPlayer s)\<rparr>) = WHITE"
    using opposite_player [OF pl] by simp
  have sw: "switchTurn ?s3 =
      Some (Done () (rendered (?s3\<lparr>currentPlayer := opposite (currentPlayer s)\<rparr>)))"
    using renderBoard_wf [OF wf3 pl3] by (simp add: switchTurn_def opposite_def)
  from False show ?thesis
    by (simp add: handleMove_def getFlippablePieces_wf [OF wf rc pl] a f sw)
qed

lemma handleMove_cases:
  assumes wf: "wf_board (board s)" and pl: "currentPlayer s = BLACK \<or> currentPlayer s = WHITE"
  shows "handleMove r c s =
     (if r < 0 \<or> BOARD_SIZE \<le> r then Some (Threw TypeError s)
      else if c < 0 \<or> BOARD_SIZE \<le> c then Some (Done () s)
      else if flips (board s) r c (currentPlayer s) = [] then Some (Done () s)
      else Some (Done ()
        (rendered (s\<lparr>board := place (board s) (r, c) (currentPlayer s)
                                 (flips (board s) r c (currentPlayer s)),
                     currentPlayer := opposite (currentPlayer s)\<rparr>))))"
proof (cases "in_range (r, c)")
  case True
  with handleMove_wf [OF wf True pl] show ?thesis
    by (auto simp: in_range_def)
next
  case False
  then have out: "r < 0 \<or> BOARD_SIZE \<le> r \<or> c < 0 \<or> BOARD_SIZE \<le> c"
    by (auto simp: in_range_def)
  then show ?thesis
    unfolding handleMove_def getFlippablePieces_cases [OF wf pl]
    by auto
qed

lemma game_inv_rendered:
  assumes "game_inv s"
  shows "game_inv (rendered s)"
  using assms by (auto simp: game_inv_def rendered_def Let_def opposite_def)

lemma handleMove_step:
  assumes inv: "game_inv s"
  shows "\<exists>x. handleMove r c s = Some x \<and> game_inv (final_state x) \<and>
           total_discs (board s) \<le> total_discs (board (final_state x))"
proof -
  from inv have wf: "wf_board (board s)"
    and pl: "currentPlayer s = BLACK \<or> currentPlayer s = WHITE"
    by (simp_all add: game_inv_def)
  let ?fl = "flips (board s) r c (currentPlayer s)"
  let ?m = "s\<lparr>board := place (board s) (r, c) (currentPlayer s) ?fl,
               currentPlayer := opposite (currentPlayer s)\<rparr>"
  show ?thesis
  proof (cases "in_range (r, c) \<and> ?fl \<noteq> []")
    case False
    then have "handleMove r c s = Some (Threw TypeError s) \<or> handleMove r c s = Some (Done () s)"
      unfolding handleMove_cases [OF wf pl] by (auto simp: in_range_def)
    with inv show ?thesis by auto
  next
    case True
    then have h: "handleMove r c s = Some (Done () (rendered ?m))"
      unfolding handleMove_cases [OF wf pl] by (auto simp: in_range_def)
    have "game_inv ?m"
      using inv wf_board_place [OF wf] opposite_player [OF pl] by (simp add: game_inv_def)
    then have "game_inv (rendered ?m)" by (rule game_inv_rendered)
    moreover have "total_discs (board (rendered ?m)) = total_discs (board s) + 1"
      using total_discs_move [OF wf _ pl] True by (simp add: rendered_frame)
    ultimately show ?thesis using h by simp
  qed
qed

lemma fireTimer_step:
  assumes inv: "game_inv s"
  shows "\<exists>s'. fireTimer s = Some (Done () s') \<and> game_inv s' \<and> board s' = board s"
proof (cases "timers s")
  case Nil
  with inv show ?thesis by (simp add: fireTimer_def)
next
  case (Cons p rest)
  let ?m = "s\<lparr>timers := rest, currentPlayer := p\<rparr>"
  from inv Cons have m: "game_inv ?m" by (simp add: game_inv_def)
  then have "renderBoard ?m = Some (Done () (rendered ?m))"
    by (intro renderBoard_wf) (simp_all add: game_inv_def)
  with game_inv_rendered [OF m] Cons show ?thesis
    by (simp add: fireTimer_def passTimeout_def rendered_frame)
qed

lemma step_total:
  assumes "game_inv s"
  shows "\<exists>x. step e s = Some x \<and> game_inv (final_state x) \<and>
           total_discs (board s) \<le> total_discs (board (final_state x))"
proof (cases e)
  case (Move r c)
  with handleMove_step [OF assms, of r c] show ?thesis by simp
next
  case Timeout
  with fireTimer_step [OF assms] show ?thesis by auto
qed

lemma run_total:
  "game_inv s \<Longrightarrow>
     \<exists>s'. run evs s = Some s' \<and> game_inv s' \<and> total_discs (board s) \<le> total_discs (board s')"
proof (induction evs arbitrary: s)
  case Nil
  then show ?case by simp
next
  case (Cons e evs)
  from step_total [OF Cons.prems, of e] obtain x where
    x: "step e s = Some x" "game_inv (final_state x)"
      "total_discs (board s) \<le> total_discs (board (final_state x))" by blast
  from Cons.IH [OF x(2)] obtain s' where
    s': "run evs (final_state x) = Some s'" "game_inv s'"
      "total_discs (board (final_state x)) \<le> total_discs (board s')" by blast
  from x(1) s'(1) have "run (e # evs) s = Some s'"
    by (cases x) simp_all
  with s' x(3) show ?case by auto
qed

lemma game_inv_no_SparseWrite:
  assumes "game_inv s"
  shows "step e s \<noteq> Some (Threw SparseWrite s')" and "step e s \<noteq> None"
proof -
  from assms have wf: "wf_board (board s)"
    and pl: "currentPlayer s = BLACK \<or> currentPlayer s = WHITE"
    by (simp_all add: game_inv_def)
  show "step e s \<noteq> Some (Threw SparseWrite s')"
  proof (cases e)
    case (Move r c)
    then show ?thesis by (simp add: handleMove_cases [OF wf pl])
  next
    case Timeout
    with fireTimer_step [OF assms] show ?thesis by auto
  qed
  from step_total [OF assms, of e] show "step e s \<noteq> None" by auto
qed

subsection \<open>The queries on any state\<close>

text \<open>Whatever the board, a query that returns or throws leaves the globals as they were.\<close>

lemma walk_frame:
  assumes "walk player opp dr dc nr nc line s = Some x"
  shows "final_state x = s"
proof (rule walk.raw_induct
    [where P = "\<lambda>player opp dr dc nr nc line s x. final_state x = s", OF _ assms])
  fix walk' :: "cell \<Rightarrow> cell \<Rightarrow> int \<Rightarrow> int \<Rightarrow> int \<Rightarrow> int \<Rightarrow> pos list \<Rightarrow> state \<Rightarrow> pos list exec option"
  fix player opp dr dc nr nc line s x
  assume ih: "\<And>player opp dr dc nr nc line s x.
      walk' player opp dr dc nr nc line s = Some x \<Longrightarrow> final_state x = s"
  assume "(if nr \<ge> 0 \<and> nr < BOARD_SIZE \<and> nc \<ge> 0 \<and> nc < BOARD_SIZE then
        (case cell_at (board s) nr nc of
           Inl e \<Rightarrow> Some (Threw e s)
         | Inr current \<Rightarrow>
             if current = Some EMPTY then Some (Done [] s)
             else if current = Some opp then
               walk' player opp dr dc (nr + dr) (nc + dc) (line @ [(nr, nc)]) s
             else if current = Some player then Some (Done line s)
             else walk' player opp dr dc (nr + dr) (nc + dc) line s)
      else Some (Done [] s)) = Some x"
  then show "final_state x = s"
    by (auto split: if_splits sum.splits dest: ih)
qed

lemma forEach_direction_frame:
  "forEach_direction r c player opp ds flippable s = Some x \<Longrightarrow> final_state x = s"
proof (induction ds arbitrary: flippable)
  case Nil
  then show ?case by auto
next
  case (Cons d ds)
  obtain dr dc where d: "d = (dr, dc)" by (cases d)
  show ?case
  proof (cases "walk player opp dr dc (r + dr) (c + dc) [] s")
    case None
    with Cons.prems show ?thesis by (simp add: d bind_def)
  next
    case (Some y)
    from walk_frame [OF Some] Cons.prems Cons.IH show ?thesis
      by (cases y) (auto simp: d Some)
  qed
qed

lemma getFlippablePieces_frame:
  "getFlippablePieces r c player s = Some x \<Longrightarrow> final_state x = s"
  by (auto simp: getFlippablePieces_def Let_def split: sum.splits if_splits
      dest: forEach_direction_frame)

lemma getValidMoves_cols_frame:
  "getValidMoves_cols player r cs validMoves s = Some x \<Longrightarrow> final_state x = s"
proof (induction cs arbitrary: validMoves)
  case Nil
  then show ?case by auto
next
  case (Cons c cs)
  show ?case
  proof (cases "getFlippablePieces r c player s")
    case None
    with Cons.prems show ?thesis by (simp add: bind_def)
  next
    case (Some y)
    from getFlippablePieces_frame [OF Some] Cons.prems Cons.IH show ?thesis
      by (cases y) (auto simp: Some)
  qed
qed

lemma getValidMoves_rows_frame:
  "getValidMoves_rows player rs validMoves s = Some x \<Longrightarrow> final_state x = s"
proof (induction rs arbitrary: validMoves)
  case Nil
  then show ?case by auto
next
  case (Cons r rs)
  show ?case
  proof (cases "getValidMoves_cols player r [0 .. BOARD_SIZE - 1] validMoves s")
    case None
    with Cons.prems show ?thesis by (simp add: bind_def)
  next
    case (Some y)
    from getValidMoves_cols_frame [OF Some] Cons.prems Cons.IH show ?thesis
      by (cases y) (auto simp: Some)
  qed
qed

lemma getValidMoves_frame:
  "getValidMoves player s = Some x \<Longrightarrow> final_state x = s"
  unfolding getValidMoves_def by (rule getValidMoves_rows_frame)

subsection \<open>The example positions\<close>

lemma wf_initial_board: "wf_board initial_board"
  by (simp add: initial_board_def wf_board_def BOARD_SIZE_def)

lemma board_initial_state: "board initial_state = initial_board"
  and currentPlayer_initial_state: "currentPlayer initial_state = BLACK"
  by (simp_all add: initial_state_def)

lemma valid_moves_initial: "valid_moves initial_board BLACK = [(2, 3), (3, 2), (4, 5), (5, 4)]"
  by code_simp

lemma count_of_initial: "count_of initial_board BLACK = 2" "count_of initial_board WHITE = 2"
  by code_simp+

lemma initial_discs:
  "upd (upd (upd (upd (replicate (nat BOARD_SIZE) (replicate (nat BOARD_SIZE) EMPTY))
     (3, 3) WHITE) (3, 4) BLACK) (4, 3) BLACK) (4, 4) WHITE = initial_board"
  by code_simp

lemma initializeGame_result:
  "initializeGame s =
     Some (Done () (s\<lparr>board := initial_board, currentPlayer := BLACK,
                      score := (2, 2), message := TurnMessage Kuro\<rparr>))"
proof -
  let ?e = "replicate (nat BOARD_SIZE) (replicate (nat BOARD_SIZE) EMPTY)"
  let ?b1 = "upd ?e (3, 3) WHITE"
  let ?b2 = "upd ?b1 (3, 4) BLACK"
  let ?b3 = "upd ?b2 (4, 3) BLACK"
  have rng: "in_range (3, 3)" "in_range (3, 4)" "in_range (4, 3)" "in_range (4, 4)"
    by (simp_all add: in_range_def BOARD_SIZE_def)
  have wf1: "wf_board ?b1" by (rule wf_board_upd [OF wf_empty_board])
  have wf2: "wf_board ?b2" by (rule wf_board_upd [OF wf1])
  have wf3: "wf_board ?b3" by (rule wf_board_upd [OF wf2])
  have a1: "assign 3 3 WHITE (s\<lparr>board := ?e\<rparr>) = Some (Done () (s\<lparr>board := ?b1\<rparr>))"
    using assign_wf [of "s\<lparr>board := ?e\<rparr>" 3 3 WHITE] wf_empty_board rng by simp
  have a2: "assign 3 4 BLACK (s\<lparr>board := ?b1\<rparr>) = Some (Done () (s\<lparr>board := ?b2\<rparr>))"
    using assign_wf [of "s\<lparr>board := ?b1\<rparr>" 3 4 BLACK] wf1 rng by simp
  have a3: "assign 4 3 BLACK (s\<lparr>board := ?b2\<rparr>) = Some (Done () (s\<lparr>board := ?b3\<rparr>))"
    using assign_wf [of "s\<lparr>board := ?b2\<rparr>" 4 3 BLACK] wf2 rng by simp
  have a4: "assign 4 4 WHITE (s\<lparr>board := ?b3\<rparr>) = Some (Done () (s\<lparr>board := initial_board\<rparr>))"
    using assign_wf [of "s\<lparr>board := ?b3\<rparr>" 4 4 WHITE] wf3 rng by (simp add: initial_discs)
  let ?s5 = "s\<lparr>board := initial_board, currentPlayer := BLACK\<rparr>"
  have r: "renderBoard ?s5 = Some (Done () (?s5\<lparr>score := (2, 2), message := TurnMessage Kuro\<rparr>))"
    using renderBoard_wf [of ?s5] wf_initial_board
    by (simp add: rendered_def valid_moves_initial count_of_initial)
  have u: "updateScore (?s5\<lparr>score := (2, 2), message := TurnMessage Kuro\<rparr>) =
      Some (Done () (?s5\<lparr>score := (2, 2), message := TurnMessage Kuro\<rparr>))"
    using updateScore_wf [of "?s5\<lparr>score := (2, 2), message := TurnMessage Kuro\<rparr>"] wf_initial_board
    by (simp add: count_of_initial)
  show ?thesis
    unfolding initializeGame_def a1 bind_Done a2 a3 a4
    using r u by simp
qed

lemma initializeGame_game_inv:
  assumes "list_all (\<lambda>p. p = BLACK \<or> p = WHITE) (timers s)"
  shows "\<exists>s'. initializeGame s = Some (Done () s') \<and> game_inv s'"
  using assms by (simp add: initializeGame_result game_inv_def wf_initial_board)

lemma flips_initial_2_3: "flips initial_board 2 3 BLACK = [(3, 3)]"
  by code_simp

lemma total_discs_initial: "total_discs initial_board = 4"
  by (simp add: total_discs_def count_of_initial)

lemma game_inv_initial: "game_inv initial_state"
  by (simp add: game_inv_def initial_state_def wf_initial_board)

lemma wf_midgame_board: "wf_board midgame_board"
  by (simp add: midgame_board_def wf_board_def BOARD_SIZE_def)

lemma midgame_state_fields:
  "board midgame_state = midgame_board" "currentPlayer midgame_state = BLACK"
  "timers midgame_state = []"
  by (simp_all add: midgame_state_def)

lemma game_inv_midgame: "game_inv midgame_state"
  by (simp add: game_inv_def midgame_state_fields wf_midgame_board)

lemma spec_flippablePieces_midgame:
  "spec_flippablePieces midgame_board 3 3 BLACK = [(4, 3), (3, 4), (3, 5), (4, 4)]"
  by code_simp

lemma flips_midgame: "flips midgame_board 3 3 BLACK = [(4, 3), (3, 4), (3, 5), (4, 4)]"
  by code_simp

lemma count_of_midgame: "count_of midgame_board BLACK = 3" "count_of midgame_board WHITE = 8"
  by code_simp+

lemma at_midgame: "at midgame_board (3, 3) = EMPTY"
  by (simp add: at_def midgame_board_def)

lemma in_range_3_3: "in_range (3, 3)"
  by (simp add: in_range_def BOARD_SIZE_def)

lemma wf_pass_board: "wf_board pass_board"
  by (simp add: pass_board_def wf_board_def BOARD_SIZE_def)

lemma pass_state_fields:
  "board pass_state = pass_board" "currentPlayer pass_state = WHITE" "timers pass_state = []"
  by (simp_all add: pass_state_def)

lemma flips_pass: "flips pass_board 0 2 WHITE = [(0, 1)]"
  by code_simp

lemma valid_moves_after_pass_move:
  "valid_moves (place pass_board (0, 2) WHITE [(0, 1)]) BLACK = []"
  "valid_moves (place pass_board (0, 2) WHITE [(0, 1)]) WHITE = [(7, 7)]"
  by code_simp+

lemma wf_finished_board: "wf_board finished_board"
  by (simp add: finished_board_def wf_board_def BOARD_SIZE_def)

lemma finished_state_fields:
  "board finished_state = finished_board" "currentPlayer finished_state = BLACK"
  "timers finished_state = []"
  by (simp_all add: finished_state_def)

lemma valid_moves_finished:
  "valid_moves finished_board BLACK = []" "valid_moves finished_board WHITE = []"
  by code_simp+

lemma count_of_finished: "count_of finished_board BLACK = 0" "count_of finished_board WHITE = 3"
  by code_simp+


section \<open>The claims\<close>

text \<open>
  C1. On every board, for every player and every in-range empty cell \<open>(r, c)\<close>,
  \<^verbatim>\<open>getFlippablePieces\<close> returns the concatenation, over the eight directions in the order
  up, down, left, right, up-left, up-right, down-left, down-right, of the maximal run of
  opponent cells walking outward from \<open>(r, c)\<close>, nearest first, a run counting only when a
  cell of the player ends it.
\<close>

theorem C1_getFlippablePieces_is_spec:
  assumes "wf_board (board s)" and "in_range (r, c)" and "at (board s) (r, c) = EMPTY"
    and "player = BLACK \<or> player = WHITE"
  shows "getFlippablePieces r c player s =
           Some (Done (spec_flippablePieces (board s) r c player) s)"
proof -
  note wf = assms(1) and rc = assms(2) and empty = assms(3) and pl = assms(4)
  from rc have guard: "\<not> (r < 0 \<or> r \<ge> BOARD_SIZE \<or> c < 0 \<or> c \<ge> BOARD_SIZE)"
    by (auto simp: in_range_def)
  have each: "walk player (opposite player) dr dc (r + dr) (c + dc) [] s =
      Some (Done (spec_line (board s) r c player (dr, dc)) s)"
    if "(dr, dc) \<in> set DIRECTIONS" for dr dc
    using wf rc that pl by (rule walk_spec_line)
  have "forEach_direction r c player (opposite player) DIRECTIONS [] s =
      Some (Done ([] @ concat (map (spec_line (board s) r c player) DIRECTIONS)) s)"
    using each by (rule forEach_direction_concat)
  then show ?thesis
    using guard empty
    by (simp add: getFlippablePieces_def cell_at_wf [OF wf rc] opposite_def
        spec_flippablePieces_def spec_directions_DIRECTIONS)
qed

theorem C1_witness:
  "wf_board (board midgame_state) \<and> in_range (3, 3) \<and> at (board midgame_state) (3, 3) = EMPTY
   \<and> getFlippablePieces 3 3 BLACK midgame_state =
       Some (Done [(4, 3), (3, 4), (3, 5), (4, 4)] midgame_state)"
proof -
  have wf: "wf_board (board midgame_state)"
    by (simp add: midgame_state_fields wf_midgame_board)
  have e: "at (board midgame_state) (3, 3) = EMPTY"
    by (simp add: midgame_state_fields at_midgame)
  from C1_getFlippablePieces_is_spec [OF wf in_range_3_3 e, of BLACK] wf in_range_3_3 e
  show ?thesis
    by (simp add: midgame_state_fields spec_flippablePieces_midgame)
qed

text \<open>
  C2. On every board, for either current player and every \<open>(r, c)\<close> with both coordinates
  in \<open>[0, 8)\<close>, \<^verbatim>\<open>handleMove\<close> returns, and it accepts the move (it changes the board: the
  disc of the current player is at \<open>(r, c)\<close> afterwards and the turn has gone to the
  other player) exactly when \<^verbatim>\<open>getFlippablePieces\<close> for the current player is not empty.
  When it is empty, which is so whenever the cell is occupied, all globals are left as
  they were.
\<close>

theorem C2_move_accepted_iff_flippable:
  assumes "wf_board (board s)" and "in_range (r, c)"
    and "currentPlayer s = BLACK \<or> currentPlayer s = WHITE"
  shows "\<exists>flippable s'.
           getFlippablePieces r c (currentPlayer s) s = Some (Done flippable s) \<and>
           handleMove r c s = Some (Done () s') \<and>
           ((board s' \<noteq> board s) = (flippable \<noteq> [])) \<and>
           ((flippable \<noteq> []) =
              (at (board s') (r, c) = currentPlayer s \<and>
               currentPlayer s' = opposite (currentPlayer s))) \<and>
           (if flippable = [] then s' = s else at (board s) (r, c) = EMPTY)"
proof -
  let ?p = "currentPlayer s"
  let ?fl = "flips (board s) r c ?p"
  let ?s' = "rendered (s\<lparr>board := place (board s) (r, c) ?p ?fl, currentPlayer := opposite ?p\<rparr>)"
  have g: "getFlippablePieces r c ?p s = Some (Done ?fl s)"
    by (rule getFlippablePieces_wf [OF assms])
  have opp: "opposite ?p \<noteq> ?p" by (simp add: opposite_def)
  show ?thesis
  proof (cases "?fl = []")
    case True
    then have "handleMove r c s = Some (Done () s)"
      by (simp add: handleMove_wf [OF assms])
    with g True opp show ?thesis by simp
  next
    case False
    then have h: "handleMove r c s = Some (Done () ?s')"
      by (simp add: handleMove_wf [OF assms])
    from False have e: "at (board s) (r, c) = EMPTY"
      by (auto simp: flips_def split: if_splits)
    have "\<forall>x \<in> set ?fl. in_range x" using flips_in_range(1) by blast
    from at_place [OF assms(1,2) this assms(2)]
    have placed: "at (board ?s') (r, c) = ?p"
      by (simp add: rendered_frame)
    with e assms(3) have "board ?s' \<noteq> board s" by auto
    moreover have "currentPlayer ?s' = opposite ?p" by (simp add: rendered_frame)
    ultimately show ?thesis
      using g h False e placed by simp
  qed
qed

theorem C2_witness:
  "wf_board (board initial_state) \<and> in_range (2, 3) \<and> currentPlayer initial_state = BLACK \<and>
   (\<exists>flippable s'.
      getFlippablePieces 2 3 (currentPlayer initial_state) initial_state =
        Some (Done flippable initial_state) \<and>
      handleMove 2 3 initial_state = Some (Done () s') \<and>
      board s' \<noteq> board initial_state \<and> flippable \<noteq> [] \<and>
      at (board s') (2, 3) = BLACK \<and> currentPlayer s' = WHITE)"
proof -
  have wf: "wf_board (board initial_state)"
    by (simp add: board_initial_state wf_initial_board)
  have rc: "in_range (2, 3)" by (simp add: in_range_def BOARD_SIZE_def)
  have pl: "currentPlayer initial_state = BLACK \<or> currentPlayer initial_state = WHITE"
    by (simp add: currentPlayer_initial_state)
  have fl: "flips initial_board 2 3 BLACK = [(3, 3)]" by code_simp
  have g: "getFlippablePieces 2 3 (currentPlayer initial_state) initial_state =
      Some (Done [(3, 3)] initial_state)"
    using getFlippablePieces_wf [OF wf rc pl]
    by (simp add: board_initial_state currentPlayer_initial_state fl)
  from C2_move_accepted_iff_flippable [OF wf rc pl] g wf rc show ?thesis
    by (auto simp: currentPlayer_initial_state opposite_def)
qed

text \<open>
  C3. After every accepted move of player \<open>P\<close>, with \<open>O\<close> the other player: when \<open>O\<close> has
  a legal move on the new board, \<open>O\<close> is the current player and the message announces
  \<open>O\<close>'s turn; when \<open>O\<close> has none and \<open>P\<close> has one, the message announces that \<open>O\<close> passes
  and one callback is scheduled, which, when it runs, makes \<open>P\<close> the current player with
  \<open>P\<close>'s turn announced and the board as it was (no disc is placed for \<open>O\<close>); it is the
  next callback to run when none was pending before the move. When neither has a legal
  move the result of the game is announced.
\<close>

theorem C3_turn_after_move:
  assumes "wf_board (board s)" and "currentPlayer s = BLACK \<or> currentPlayer s = WHITE"
    and "getFlippablePieces r c (currentPlayer s) s = Some (Done flippable s)"
    and "flippable \<noteq> []"
  shows "\<exists>s' movesO movesP.
           handleMove r c s = Some (Done () s') \<and>
           getValidMoves (opposite (currentPlayer s)) s' = Some (Done movesO s') \<and>
           getValidMoves (currentPlayer s) s' = Some (Done movesP s') \<and>
           (if movesO \<noteq> [] then
              currentPlayer s' = opposite (currentPlayer s) \<and>
              message s' = TurnMessage (colour_of (opposite (currentPlayer s))) \<and>
              timers s' = timers s
            else if movesP \<noteq> [] then
              message s' = PassMessage (colour_of (opposite (currentPlayer s)))
                             (colour_of (currentPlayer s)) \<and>
              timers s' = timers s @ [currentPlayer s] \<and>
              (\<exists>s''. passTimeout (currentPlayer s) s' = Some (Done () s'') \<and>
                     currentPlayer s'' = currentPlayer s \<and>
                     board s'' = board s' \<and>
                     message s'' = TurnMessage (colour_of (currentPlayer s))) \<and>
              (timers s = [] \<longrightarrow>
                 (\<exists>t. fireTimer s' = Some (Done () t) \<and>
                      currentPlayer t = currentPlayer s \<and> board t = board s' \<and>
                      message t = TurnMessage (colour_of (currentPlayer s)) \<and> timers t = []))
            else
              message s' = result_message (count_of (board s') BLACK) (count_of (board s') WHITE) \<and>
              timers s' = timers s)"
proof -
  let ?P = "currentPlayer s"
  let ?O = "opposite ?P"
  let ?fl = "flips (board s) r c ?P"
  let ?b = "place (board s) (r, c) ?P ?fl"
  let ?m = "s\<lparr>board := ?b, currentPlayer := ?O\<rparr>"
  let ?s' = "rendered ?m"
  note wf = assms(1) and pl = assms(2)
  from getFlippablePieces_nonempty [OF wf pl assms(3,4)]
  have rc: "in_range (r, c)" and fl: "?fl \<noteq> []" using assms(4) by simp_all
  from fl have h: "handleMove r c s = Some (Done () ?s')"
    by (simp add: handleMove_wf [OF wf rc pl])
  have wfb: "wf_board ?b" by (rule wf_board_place [OF wf])
  have wf': "wf_board (board ?s')" using wfb by (simp add: rendered_frame)
  have plO: "?O = BLACK \<or> ?O = WHITE" by (rule opposite_player [OF pl])
  have OO: "opposite ?O = ?P" by (rule opposite_opposite [OF pl])
  have gO: "getValidMoves ?O ?s' = Some (Done (valid_moves ?b ?O) ?s')"
    using getValidMoves_wf [OF wf' plO] by (simp add: rendered_frame)
  have gP: "getValidMoves ?P ?s' = Some (Done (valid_moves ?b ?P) ?s')"
    using getValidMoves_wf [OF wf' pl] by (simp add: rendered_frame)
  have m: "board ?m = ?b" "currentPlayer ?m = ?O" "timers ?m = timers s" by simp_all
  consider (turn) "valid_moves ?b ?O \<noteq> []"
    | (pass) "valid_moves ?b ?O = []" "valid_moves ?b ?P \<noteq> []"
    | (over) "valid_moves ?b ?O = []" "valid_moves ?b ?P = []"
    by blast
  then have "if valid_moves ?b ?O \<noteq> [] then
      currentPlayer ?s' = ?O \<and> message ?s' = TurnMessage (colour_of ?O) \<and> timers ?s' = timers s
    else if valid_moves ?b ?P \<noteq> [] then
      message ?s' = PassMessage (colour_of ?O) (colour_of ?P) \<and>
      timers ?s' = timers s @ [?P] \<and>
      (\<exists>s''. passTimeout ?P ?s' = Some (Done () s'') \<and> currentPlayer s'' = ?P \<and>
         board s'' = board ?s' \<and> message s'' = TurnMessage (colour_of ?P)) \<and>
      (timers s = [] \<longrightarrow>
         (\<exists>t. fireTimer ?s' = Some (Done () t) \<and> currentPlayer t = ?P \<and>
            board t = board ?s' \<and> message t = TurnMessage (colour_of ?P) \<and> timers t = []))
    else
      message ?s' = result_message (count_of (board ?s') BLACK) (count_of (board ?s') WHITE) \<and>
      timers ?s' = timers s"
  proof cases
    case turn
    with rendered_turn [of ?m] show ?thesis by simp
  next
    case pass
    let ?t = "?s'\<lparr>currentPlayer := ?P\<rparr>"
    from pass rendered_pass [of ?m] OO
    have s': "message ?s' = PassMessage (colour_of ?O) (colour_of ?P)"
      "timers ?s' = timers s @ [?P]"
      by simp_all
    have t: "board ?t = ?b" "currentPlayer ?t = ?P" by (simp_all add: rendered_frame)
    have "renderBoard ?t = Some (Done () (rendered ?t))"
      by (rule renderBoard_wf) (simp_all add: t wfb pl)
    moreover have "rendered ?t =
        ?t\<lparr>score := (count_of ?b BLACK, count_of ?b WHITE), message := TurnMessage (colour_of ?P)\<rparr>"
      using rendered_turn [of ?t] pass(2) by (simp add: t)
    ultimately have cb: "\<exists>s''. passTimeout ?P ?s' = Some (Done () s'') \<and> currentPlayer s'' = ?P \<and>
        board s'' = board ?s' \<and> message s'' = TurnMessage (colour_of ?P)"
      by (simp add: passTimeout_def rendered_frame)
    have fire: "\<exists>t. fireTimer ?s' = Some (Done () t) \<and> currentPlayer t = ?P \<and>
        board t = board ?s' \<and> message t = TurnMessage (colour_of ?P) \<and> timers t = []"
      if none: "timers s = []"
    proof -
      let ?u = "?s'\<lparr>timers := [], currentPlayer := ?P\<rparr>"
      have u: "board ?u = ?b" "currentPlayer ?u = ?P" "timers ?u = []"
        by (simp_all add: rendered_frame)
      have "renderBoard ?u = Some (Done () (rendered ?u))"
        by (rule renderBoard_wf) (simp_all add: u wfb pl)
      moreover have "rendered ?u =
          ?u\<lparr>score := (count_of ?b BLACK, count_of ?b WHITE),
             message := TurnMessage (colour_of ?P)\<rparr>"
        using rendered_turn [of ?u] pass(2) by (simp add: u)
      moreover have "timers ?s' = [?P]" using s'(2) none by simp
      ultimately show ?thesis
        by (simp add: fireTimer_def passTimeout_def rendered_frame)
    qed
    with pass s' cb show ?thesis by simp
  next
    case over
    with rendered_end [of ?m] OO show ?thesis by (simp add: rendered_frame)
  qed
  with h gO gP show ?thesis by blast
qed

theorem C3_witness:
  "wf_board (board pass_state) \<and> currentPlayer pass_state = WHITE \<and>
   getFlippablePieces 0 2 (currentPlayer pass_state) pass_state =
     Some (Done [(0, 1)] pass_state) \<and>
   (\<exists>s'. handleMove 0 2 pass_state = Some (Done () s') \<and>
         getValidMoves BLACK s' = Some (Done [] s') \<and>
         getValidMoves WHITE s' = Some (Done [(7, 7)] s') \<and>
         message s' = PassMessage Kuro Shiro \<and>
         timers s' = [WHITE] \<and>
         (\<exists>s''. passTimeout WHITE s' = Some (Done () s'') \<and> currentPlayer s'' = WHITE \<and>
                board s'' = board s' \<and> message s'' = TurnMessage Shiro) \<and>
         (\<exists>t. fireTimer s' = Some (Done () t) \<and> currentPlayer t = WHITE \<and>
              board t = board s' \<and> message t = TurnMessage Shiro \<and> timers t = []))"
proof -
  have wf: "wf_board (board pass_state)"
    by (simp add: pass_state_fields wf_pass_board)
  have rc: "in_range (0, 2)" by (simp add: in_range_def BOARD_SIZE_def)
  have pl: "currentPlayer pass_state = BLACK \<or> currentPlayer pass_state = WHITE"
    by (simp add: pass_state_fields)
  have g: "getFlippablePieces 0 2 (currentPlayer pass_state) pass_state =
      Some (Done [(0, 1)] pass_state)"
    using getFlippablePieces_wf [OF wf rc pl] by (simp add: pass_state_fields flips_pass)
  have vals: "currentPlayer pass_state = WHITE" "opposite WHITE = BLACK"
    "colour_of WHITE = Shiro" "colour_of BLACK = Kuro" "timers pass_state = []"
    by (simp_all add: pass_state_fields opposite_def colour_of_def)
  from C3_turn_after_move [OF wf pl g] obtain s' movesO movesP where
    h: "handleMove 0 2 pass_state = Some (Done () s')"
    and gO: "getValidMoves BLACK s' = Some (Done movesO s')"
    and gP: "getValidMoves WHITE s' = Some (Done movesP s')"
    and st: "if movesO \<noteq> [] then
        currentPlayer s' = BLACK \<and> message s' = TurnMessage Kuro \<and> timers s' = []
      else if movesP \<noteq> [] then
        message s' = PassMessage Kuro Shiro \<and> timers s' = [WHITE] \<and>
        (\<exists>s''. passTimeout WHITE s' = Some (Done () s'') \<and> currentPlayer s'' = WHITE \<and>
           board s'' = board s' \<and> message s'' = TurnMessage Shiro) \<and>
        (\<exists>t. fireTimer s' = Some (Done () t) \<and> currentPlayer t = WHITE \<and>
           board t = board s' \<and> message t = TurnMessage Shiro \<and> timers t = [])
      else
        message s' = result_message (count_of (board s') BLACK) (count_of (board s') WHITE) \<and>
        timers s' = []"
    unfolding vals append_Nil simp_thms by blast
  from h handleMove_wf [OF wf rc pl]
  have b: "board s' = place pass_board (0, 2) WHITE [(0, 1)]"
    by (auto simp: pass_state_fields flips_pass rendered_frame)
  then have wf': "wf_board (board s')" by (simp add: wf_board_place [OF wf_pass_board])
  from gO getValidMoves_wf [OF wf', of BLACK] have "movesO = []"
    by (simp add: b valid_moves_after_pass_move)
  moreover from gP getValidMoves_wf [OF wf', of WHITE] have "movesP = [(7, 7)]"
    by (simp add: b valid_moves_after_pass_move)
  ultimately show ?thesis
    using wf g h gO gP st by (simp add: pass_state_fields)
qed

text \<open>
  C4. The specification asks that coordinates outside the board be rejected like any
  illegal move, without an exception. The script does so for a column outside the board,
  but not for a row: the guard of \<^verbatim>\<open>getFlippablePieces\<close> reads \<^verbatim>\<open>board[r][c]\<close> before it
  tests the range, and \<^verbatim>\<open>board[8]\<close> and \<^verbatim>\<open>board[-1]\<close> are \<^verbatim>\<open>undefined\<close>. On the opening
  position \<^verbatim>\<open>getFlippablePieces\<close> and \<^verbatim>\<open>handleMove\<close> throw for row 8 and row -1,
  leaving the globals as they were.
\<close>

theorem C4_row_out_of_range_throws:
  "getFlippablePieces 8 0 BLACK initial_state = Some (Threw TypeError initial_state) \<and>
   getFlippablePieces (-1) 0 BLACK initial_state = Some (Threw TypeError initial_state) \<and>
   handleMove 8 0 initial_state = Some (Threw TypeError initial_state) \<and>
   getFlippablePieces 0 8 BLACK initial_state = Some (Done [] initial_state) \<and>
   handleMove 0 (-1) initial_state = Some (Done () initial_state)"
proof -
  have wf: "wf_board (board initial_state)"
    by (simp add: board_initial_state wf_initial_board)
  have "getFlippablePieces 8 0 BLACK initial_state = Some (Threw TypeError initial_state)"
    and "getFlippablePieces (-1) 0 BLACK initial_state = Some (Threw TypeError initial_state)"
    by (rule getFlippablePieces_row_out [OF wf], simp add: BOARD_SIZE_def)+
  moreover have "getFlippablePieces 0 8 BLACK initial_state = Some (Done [] initial_state)"
    and "getFlippablePieces 0 (-1) BLACK initial_state = Some (Done [] initial_state)"
    by (rule getFlippablePieces_col_out [OF wf], simp_all add: BOARD_SIZE_def)+
  ultimately show ?thesis
    by (simp add: handleMove_def currentPlayer_initial_state)
qed

theorem C4_witness:
  "getFlippablePieces 8 0 BLACK initial_state \<noteq> Some (Done [] initial_state) \<and>
   handleMove 8 0 initial_state \<noteq> Some (Done () initial_state)"
  using C4_row_out_of_range_throws by simp

text \<open>
  C5. In a game (a well-formed board, a player to move, pending pass callbacks for
  players), every accepted move raises the number of discs, black plus white, by exactly
  one: the cell played held no disc and holds the mover's afterwards, every flipped cell
  held the opponent's disc and holds the mover's afterwards, and no other cell changes;
  the score shown afterwards is that of the new board. Hence over any sequence of moves
  and pass callbacks, accepted, rejected or ended by an exception, the number of discs
  never goes down.
\<close>

theorem C5_disc_total:
  assumes "game_inv s"
  shows "(\<forall>r c flippable.
            getFlippablePieces r c (currentPlayer s) s = Some (Done flippable s) \<and>
            flippable \<noteq> [] \<longrightarrow>
            (\<exists>s'. handleMove r c s = Some (Done () s') \<and>
                  count_of (board s') BLACK + count_of (board s') WHITE =
                    count_of (board s) BLACK + count_of (board s) WHITE + 1 \<and>
                  score s' = (count_of (board s') BLACK, count_of (board s') WHITE) \<and>
                  at (board s) (r, c) = EMPTY \<and> at (board s') (r, c) = currentPlayer s \<and>
                  (\<forall>p \<in> set flippable.
                     at (board s) p = opposite (currentPlayer s) \<and>
                     at (board s') p = currentPlayer s) \<and>
                  (\<forall>q. in_range q \<and> q \<noteq> (r, c) \<and> q \<notin> set flippable \<longrightarrow>
                     at (board s') q = at (board s) q))) \<and>
         (\<forall>evs. \<exists>s'. run evs s = Some s' \<and> total_discs (board s) \<le> total_discs (board s'))"
proof (intro conjI allI impI)
  fix r c flippable
  assume a: "getFlippablePieces r c (currentPlayer s) s = Some (Done flippable s) \<and>
    flippable \<noteq> []"
  from assms have wf: "wf_board (board s)"
    and pl: "currentPlayer s = BLACK \<or> currentPlayer s = WHITE"
    by (simp_all add: game_inv_def)
  let ?p = "currentPlayer s"
  let ?fl = "flips (board s) r c ?p"
  let ?b = "place (board s) (r, c) ?p ?fl"
  let ?m = "s\<lparr>board := ?b, currentPlayer := opposite ?p\<rparr>"
  from a getFlippablePieces_nonempty [OF wf pl, of r c flippable s]
  have rc: "in_range (r, c)" and fl: "?fl \<noteq> []" and eq: "flippable = ?fl" by simp_all
  from fl have e: "at (board s) (r, c) = EMPTY"
    by (auto simp: flips_def split: if_splits)
  from fl have "handleMove r c s = Some (Done () (rendered ?m))"
    by (simp add: handleMove_wf [OF wf rc pl])
  moreover have "total_discs (board (rendered ?m)) = total_discs (board s) + 1"
    using total_discs_move [OF wf rc pl fl] by (simp add: rendered_frame)
  moreover have "score (rendered ?m) =
      (count_of (board (rendered ?m)) BLACK, count_of (board (rendered ?m)) WHITE)"
    by (simp add: rendered_def Let_def)
  moreover have "board (rendered ?m) = ?b" by (simp add: rendered_frame)
  ultimately show "\<exists>s'. handleMove r c s = Some (Done () s') \<and>
      count_of (board s') BLACK + count_of (board s') WHITE =
        count_of (board s) BLACK + count_of (board s) WHITE + 1 \<and>
      score s' = (count_of (board s') BLACK, count_of (board s') WHITE) \<and>
      at (board s) (r, c) = EMPTY \<and> at (board s') (r, c) = currentPlayer s \<and>
      (\<forall>p \<in> set flippable.
         at (board s) p = opposite (currentPlayer s) \<and> at (board s') p = currentPlayer s) \<and>
      (\<forall>q. in_range q \<and> q \<noteq> (r, c) \<and> q \<notin> set flippable \<longrightarrow>
         at (board s') q = at (board s) q)"
    using move_cells [OF wf rc fl] e
    by (simp add: total_discs_def eq)
next
  fix evs
  from run_total [OF assms, of evs]
  show "\<exists>s'. run evs s = Some s' \<and> total_discs (board s) \<le> total_discs (board s')"
    by blast
qed

theorem C5_witness:
  "game_inv midgame_state \<and>
   getFlippablePieces 3 3 (currentPlayer midgame_state) midgame_state =
     Some (Done [(4, 3), (3, 4), (3, 5), (4, 4)] midgame_state) \<and>
   (\<exists>s'. handleMove 3 3 midgame_state = Some (Done () s') \<and>
         count_of (board s') BLACK + count_of (board s') WHITE = 12 \<and>
         score s' = (count_of (board s') BLACK, count_of (board s') WHITE) \<and>
         at (board s') (3, 3) = BLACK \<and> at (board s') (3, 5) = BLACK \<and>
         at (board s') (2, 3) = WHITE) \<and>
   (\<exists>s'. run [Move 3 3, Move 8 0, Timeout, Move 0 0] midgame_state = Some s' \<and>
         11 \<le> total_discs (board s'))"
proof -
  have wf: "wf_board (board midgame_state)"
    by (simp add: midgame_state_fields wf_midgame_board)
  have pl: "currentPlayer midgame_state = BLACK \<or> currentPlayer midgame_state = WHITE"
    by (simp add: midgame_state_fields)
  have g: "getFlippablePieces 3 3 (currentPlayer midgame_state) midgame_state =
      Some (Done [(4, 3), (3, 4), (3, 5), (4, 4)] midgame_state)"
    using getFlippablePieces_wf [OF wf in_range_3_3 pl]
    by (simp add: midgame_state_fields flips_midgame)
  have other: "in_range (2, 3)" "at midgame_board (2, 3) = WHITE"
    by (simp_all add: in_range_def BOARD_SIZE_def at_def midgame_board_def)
  note t = C5_disc_total [OF game_inv_midgame]
  from t g obtain s' where s': "handleMove 3 3 midgame_state = Some (Done () s')"
    "count_of (board s') BLACK + count_of (board s') WHITE =
       count_of (board midgame_state) BLACK + count_of (board midgame_state) WHITE + 1"
    "score s' = (count_of (board s') BLACK, count_of (board s') WHITE)"
    "at (board s') (3, 3) = currentPlayer midgame_state"
    "\<forall>p \<in> set [(4, 3), (3, 4), (3, 5), (4, 4)].
       at (board midgame_state) p = opposite (currentPlayer midgame_state) \<and>
       at (board s') p = currentPlayer midgame_state"
    "\<forall>q. in_range q \<and> q \<noteq> (3, 3) \<and> q \<notin> set [(4, 3), (3, 4), (3, 5), (4, 4)] \<longrightarrow>
       at (board s') q = at (board midgame_state) q"
    by blast
  from s'(6) other have "at (board s') (2, 3) = WHITE"
    by (simp add: midgame_state_fields)
  with s' have "\<exists>s'. handleMove 3 3 midgame_state = Some (Done () s') \<and>
      count_of (board s') BLACK + count_of (board s') WHITE = 12 \<and>
      score s' = (count_of (board s') BLACK, count_of (board s') WHITE) \<and>
      at (board s') (3, 3) = BLACK \<and> at (board s') (3, 5) = BLACK \<and>
      at (board s') (2, 3) = WHITE"
    by (simp add: midgame_state_fields count_of_midgame)
  moreover from t have "\<exists>s'. run [Move 3 3, Move 8 0, Timeout, Move 0 0] midgame_state = Some s' \<and>
      total_discs (board midgame_state) \<le> total_discs (board s')"
    by blast
  ultimately show ?thesis
    using g game_inv_midgame
    by (simp add: midgame_state_fields total_discs_def count_of_midgame del: run.simps)
qed

text \<open>
  C6. \<^verbatim>\<open>initializeGame\<close>, whatever the globals held, leaves exactly the opening position
  (white discs at (3,3) and (4,4), black discs at (3,4) and (4,3), every other cell empty)
  with \<open>BLACK\<close> to move, and in that state \<^verbatim>\<open>getValidMoves(BLACK)\<close> returns the four cells
  (2,3), (3,2), (4,5), (5,4) and nothing else.
\<close>

theorem C6_initial_state:
  "\<exists>s'. initializeGame s = Some (Done () s') \<and>
        board s' = initial_board \<and>
        at initial_board (3, 3) = WHITE \<and> at initial_board (4, 4) = WHITE \<and>
        at initial_board (3, 4) = BLACK \<and> at initial_board (4, 3) = BLACK \<and>
        length (filter (\<lambda>p. at initial_board p = EMPTY) all_positions) = 60 \<and>
        currentPlayer s' = BLACK \<and>
        getValidMoves BLACK s' = Some (Done [(2, 3), (3, 2), (4, 5), (5, 4)] s')"
proof -
  let ?s' = "s\<lparr>board := initial_board, currentPlayer := BLACK,
               score := (2, 2), message := TurnMessage Kuro\<rparr>"
  have "getValidMoves BLACK ?s' = Some (Done [(2, 3), (3, 2), (4, 5), (5, 4)] ?s')"
    using getValidMoves_wf [of ?s' BLACK] wf_initial_board
    by (simp add: valid_moves_initial)
  moreover have "at initial_board (3, 3) = WHITE" "at initial_board (4, 4) = WHITE"
    "at initial_board (3, 4) = BLACK" "at initial_board (4, 3) = BLACK"
    by (simp_all add: at_def initial_board_def)
  moreover have "length (filter (\<lambda>p. at initial_board p = EMPTY) all_positions) = 60"
    using count_of_def [of initial_board EMPTY, symmetric] by code_simp
  ultimately show ?thesis
    using initializeGame_result [of s] by simp
qed

text \<open>
  C7. The end of the game is absorbing. When neither player has a legal move, the
  status the script computes is the result of the game, computing it changes neither the
  board nor the current player and schedules no callback, and from then on every call of
  \<^verbatim>\<open>handleMove\<close>, for any coordinates, leaves all globals as they were: it returns without
  placing a disc for a cell of the board, and so does any sequence of such calls. With no
  pass callback pending, no sequence of moves and callbacks changes anything.
\<close>

theorem C7_terminal_is_absorbing:
  assumes "wf_board (board s)" and "currentPlayer s = BLACK \<or> currentPlayer s = WHITE"
    and "getValidMoves BLACK s = Some (Done [] s)"
    and "getValidMoves WHITE s = Some (Done [] s)"
  shows "(\<exists>s'. renderBoard s = Some (Done () s') \<and>
               message s' = result_message (count_of (board s) BLACK) (count_of (board s) WHITE) \<and>
               board s' = board s \<and> currentPlayer s' = currentPlayer s \<and>
               timers s' = timers s) \<and>
         (\<forall>r c. \<exists>x. handleMove r c s = Some x \<and> final_state x = s) \<and>
         (\<forall>r c. in_range (r, c) \<longrightarrow> handleMove r c s = Some (Done () s)) \<and>
         (\<forall>cells. run (map (\<lambda>(r, c). Move r c) cells) s = Some s) \<and>
         (timers s = [] \<longrightarrow> (\<forall>evs. run evs s = Some s))"
proof -
  note wf = assms(1) and pl = assms(2)
  from assms(3) getValidMoves_wf [OF wf, of BLACK]
  have vb: "valid_moves (board s) BLACK = []" by simp
  from assms(4) getValidMoves_wf [OF wf, of WHITE]
  have vw: "valid_moves (board s) WHITE = []" by simp
  from vb vw pl have none: "valid_moves (board s) (currentPlayer s) = []"
    "valid_moves (board s) (opposite (currentPlayer s)) = []"
    by (auto simp: opposite_def)
  have status: "\<exists>s'. renderBoard s = Some (Done () s') \<and>
      message s' = result_message (count_of (board s) BLACK) (count_of (board s) WHITE) \<and>
      board s' = board s \<and> currentPlayer s' = currentPlayer s \<and> timers s' = timers s"
    using renderBoard_wf [OF wf pl] rendered_end [OF none] by simp
  have no_flips: "flips (board s) r c (currentPlayer s) = []" if "in_range (r, c)" for r c
    using none(1) valid_moves_member [of r c "board s" "currentPlayer s"] that by simp
  have in_board: "handleMove r c s = Some (Done () s)" if "in_range (r, c)" for r c
    using no_flips [OF that] by (simp add: handleMove_wf [OF wf that pl])
  have any: "handleMove r c s = Some (Threw TypeError s) \<or> handleMove r c s = Some (Done () s)"
    for r c
  proof (cases "in_range (r, c)")
    case True
    then show ?thesis by (simp add: in_board)
  next
    case False
    then show ?thesis
      unfolding handleMove_cases [OF wf pl] by (auto simp: in_range_def)
  qed
  have seq: "run (map (\<lambda>(r, c). Move r c) cells) s = Some s" for cells
  proof (induction cells)
    case Nil
    then show ?case by simp
  next
    case (Cons p cells)
    obtain r c where p: "p = (r, c)" by (cases p)
    from any [of r c] Cons show ?case
      by (auto simp: p)
  qed
  have events: "run evs s = Some s" if none: "timers s = []" for evs
  proof (induction evs)
    case Nil
    then show ?case by simp
  next
    case (Cons e evs)
    show ?case
    proof (cases e)
      case (Move r c)
      with any [of r c] Cons show ?thesis by auto
    next
      case Timeout
      with none Cons show ?thesis by (simp add: fireTimer_def)
    qed
  qed
  have "\<exists>x. handleMove r c s = Some x \<and> final_state x = s" for r c
    using any [of r c] by auto
  with status in_board seq events show ?thesis by blast
qed

theorem C7_witness:
  "wf_board (board finished_state) \<and> currentPlayer finished_state = BLACK \<and>
   getValidMoves BLACK finished_state = Some (Done [] finished_state) \<and>
   getValidMoves WHITE finished_state = Some (Done [] finished_state) \<and>
   (\<exists>s'. renderBoard finished_state = Some (Done () s') \<and> message s' = WhiteWins 3 0 \<and>
         board s' = board finished_state \<and> currentPlayer s' = BLACK \<and> timers s' = []) \<and>
   handleMove 0 3 finished_state = Some (Done () finished_state) \<and>
   run [Move 0 3, Move 5 5, Move 9 9] finished_state = Some finished_state \<and>
   run [Move 0 3, Timeout, Move 9 9] finished_state = Some finished_state"
proof -
  have wf: "wf_board (board finished_state)"
    by (simp add: finished_state_fields wf_finished_board)
  have pl: "currentPlayer finished_state = BLACK \<or> currentPlayer finished_state = WHITE"
    by (simp add: finished_state_fields)
  have gb: "getValidMoves BLACK finished_state = Some (Done [] finished_state)"
    using getValidMoves_wf [OF wf, of BLACK]
    by (simp add: finished_state_fields valid_moves_finished)
  have gw: "getValidMoves WHITE finished_state = Some (Done [] finished_state)"
    using getValidMoves_wf [OF wf, of WHITE]
    by (simp add: finished_state_fields valid_moves_finished)
  have rc: "in_range (0, 3)" by (simp add: in_range_def BOARD_SIZE_def)
  have cells: "map (\<lambda>(r, c). Move r c) [(0, 3), (5, 5), (9, 9)] = [Move 0 3, Move 5 5, Move 9 9]"
    by simp
  note t = C7_terminal_is_absorbing [OF wf pl gb gw]
  from t have "\<exists>s'. renderBoard finished_state = Some (Done () s') \<and>
      message s' = WhiteWins 3 0 \<and> board s' = board finished_state \<and>
      currentPlayer s' = BLACK \<and> timers s' = []"
    by (simp add: finished_state_fields count_of_finished result_message_def)
  moreover from t rc have "handleMove 0 3 finished_state = Some (Done () finished_state)"
    by blast
  moreover from t have "run (map (\<lambda>(r, c). Move r c) [(0, 3), (5, 5), (9, 9)]) finished_state =
      Some finished_state"
    by blast
  moreover from t have "run [Move 0 3, Timeout, Move 9 9] finished_state = Some finished_state"
    by (simp add: finished_state_fields del: run.simps)
  ultimately show ?thesis
    using wf gb gw by (simp add: finished_state_fields cells del: run.simps)
qed

text \<open>
  C8. At the end of the game the result that \<^verbatim>\<open>endGame\<close> announces depends on the two
  counts only: black wins when there are more black cells than white cells on the board,
  white wins when there are more white cells, and the game is drawn otherwise.
\<close>

theorem C8_winner_from_counts:
  assumes "wf_board (board s)"
  shows "endGame s =
     Some (Done ()
       (s\<lparr>message :=
            (if count_of (board s) BLACK > count_of (board s) WHITE
             then BlackWins (count_of (board s) BLACK) (count_of (board s) WHITE)
             else if count_of (board s) WHITE > count_of (board s) BLACK
             then WhiteWins (count_of (board s) WHITE) (count_of (board s) BLACK)
             else DrawGame (count_of (board s) BLACK) (count_of (board s) WHITE))\<rparr>))"
  using endGame_wf [OF assms] by (simp add: result_message_def)

theorem C8_witness:
  "wf_board (board midgame_state) \<and>
   endGame midgame_state = Some (Done () (midgame_state\<lparr>message := WhiteWins 8 3\<rparr>))"
proof -
  have wf: "wf_board (board midgame_state)"
    by (simp add: midgame_state_fields wf_midgame_board)
  from C8_winner_from_counts [OF wf] wf show ?thesis
    by (simp add: midgame_state_fields count_of_midgame)
qed

text \<open>
  C9. On every board, for every player and every in-range empty cell \<open>(r, c)\<close>, each
  coordinate that \<^verbatim>\<open>getFlippablePieces\<close> returns is in range, holds the opponent's colour
  (so it is neither empty nor the player's), differs from \<open>(r, c)\<close>, and no coordinate is
  returned twice.
\<close>

theorem C9_flippable_cells_are_opponent_discs:
  assumes "wf_board (board s)" and "in_range (r, c)" and "at (board s) (r, c) = EMPTY"
    and "player = BLACK \<or> player = WHITE"
  shows "\<exists>flippable.
           getFlippablePieces r c player s = Some (Done flippable s) \<and>
           list_all (\<lambda>p. in_range p \<and> at (board s) p = opposite player \<and>
                        at (board s) p \<noteq> EMPTY \<and> at (board s) p \<noteq> player \<and> p \<noteq> (r, c))
             flippable \<and>
           distinct flippable"
proof -
  let ?fl = "spec_flippablePieces (board s) r c player"
  have "getFlippablePieces r c player s = Some (Done ?fl s)"
    using assms(1,2,4,3) by (rule getFlippablePieces_empty_cell)
  moreover have "in_range p \<and> at (board s) p = opposite player \<and> at (board s) p \<noteq> EMPTY \<and>
      at (board s) p \<noteq> player \<and> p \<noteq> (r, c)" if "p \<in> set ?fl" for p
    using spec_flippablePieces_member [OF that] assms(4) by (auto simp: opposite_def)
  moreover have "distinct ?fl" by (rule spec_flippablePieces_distinct)
  ultimately show ?thesis
    unfolding list_all_iff by blast
qed

theorem C9_witness:
  "wf_board (board midgame_state) \<and> in_range (3, 3) \<and> at (board midgame_state) (3, 3) = EMPTY \<and>
   (\<exists>flippable.
      getFlippablePieces 3 3 BLACK midgame_state = Some (Done flippable midgame_state) \<and>
      flippable = [(4, 3), (3, 4), (3, 5), (4, 4)] \<and>
      list_all (\<lambda>p. in_range p \<and> at (board midgame_state) p = opposite BLACK \<and>
                   at (board midgame_state) p \<noteq> EMPTY \<and> at (board midgame_state) p \<noteq> BLACK \<and>
                   p \<noteq> (3, 3)) flippable \<and>
      distinct flippable)"
proof -
  have wf: "wf_board (board midgame_state)"
    by (simp add: midgame_state_fields wf_midgame_board)
  have e: "at (board midgame_state) (3, 3) = EMPTY"
    by (simp add: midgame_state_fields at_midgame)
  have pl: "BLACK = BLACK \<or> BLACK = WHITE" by simp
  have g: "getFlippablePieces 3 3 BLACK midgame_state =
      Some (Done [(4, 3), (3, 4), (3, 5), (4, 4)] midgame_state)"
    using getFlippablePieces_wf [OF wf in_range_3_3 pl]
    by (simp add: midgame_state_fields flips_midgame)
  from C9_flippable_cells_are_opponent_discs [OF wf in_range_3_3 e pl] g wf in_range_3_3 e
  show ?thesis
    by auto
qed

text \<open>
  C10. The two queries only read: on every board, for every player and all arguments
  (also coordinates off the board, where the call may throw), \<^verbatim>\<open>getFlippablePieces\<close> and
  \<^verbatim>\<open>getValidMoves\<close> leave every global as it was. \<^verbatim>\<open>getValidMoves\<close> returns exactly the
  qualifying cells, those cells of the board for which \<^verbatim>\<open>getFlippablePieces\<close> returns a
  non-empty list, in row-major order (rows ascending, columns ascending within a row),
  none twice: the list is the row-major list of the 64 cells with the other cells removed.
\<close>

theorem C10_queries_read_only:
  assumes "wf_board (board s)" and "player = BLACK \<or> player = WHITE"
  shows "(\<exists>x. getFlippablePieces r c player s = Some x \<and> final_state x = s) \<and>
         (\<exists>validMoves.
            getValidMoves player s = Some (Done validMoves s) \<and>
            validMoves = valid_moves (board s) player \<and>
            validMoves =
              filter (\<lambda>(r, c). \<exists>flippable. getFlippablePieces r c player s =
                         Some (Done flippable s) \<and> flippable \<noteq> [])
                all_positions \<and>
            (\<forall>r c. ((r, c) \<in> set validMoves) =
               (in_range (r, c) \<and>
                (\<exists>flippable. getFlippablePieces r c player s = Some (Done flippable s) \<and>
                   flippable \<noteq> []))) \<and>
            sorted_wrt row_major validMoves \<and> distinct validMoves)"
proof -
  let ?vm = "valid_moves (board s) player"
  let ?q = "\<lambda>(r, c). \<exists>flippable. getFlippablePieces r c player s = Some (Done flippable s) \<and>
    flippable \<noteq> []"
  have frame: "\<exists>x. getFlippablePieces r c player s = Some x \<and> final_state x = s"
    unfolding getFlippablePieces_cases [OF assms] by simp
  have qual: "?q p = (case p of (r, c) \<Rightarrow> flips (board s) r c player \<noteq> [])"
    if "p \<in> set all_positions" for p
  proof -
    obtain r c where p: "p = (r, c)" by (cases p)
    from that have "in_range (r, c)" by (simp add: p set_all_positions)
    from getFlippablePieces_wf [OF assms(1) this assms(2)] show ?thesis
      by (simp add: p)
  qed
  have filt: "?vm = filter ?q all_positions"
    unfolding valid_moves_def by (rule filter_cong) (simp_all add: qual)
  have mem: "((r, c) \<in> set ?vm) =
      (in_range (r, c) \<and>
       (\<exists>flippable. getFlippablePieces r c player s = Some (Done flippable s) \<and>
          flippable \<noteq> []))" for r c
    unfolding filt by (simp add: set_all_positions conj_commute)
  have "getValidMoves player s = Some (Done ?vm s)"
    by (rule getValidMoves_wf [OF assms])
  moreover note filt
  moreover from mem have "\<forall>r c. ((r, c) \<in> set ?vm) =
      (in_range (r, c) \<and>
       (\<exists>flippable. getFlippablePieces r c player s = Some (Done flippable s) \<and>
          flippable \<noteq> []))"
    by blast
  moreover have "sorted_wrt row_major ?vm" "distinct ?vm"
    by (rule valid_moves_row_major)+
  ultimately have "\<exists>validMoves.
      getValidMoves player s = Some (Done validMoves s) \<and>
      validMoves = ?vm \<and>
      validMoves = filter ?q all_positions \<and>
      (\<forall>r c. ((r, c) \<in> set validMoves) =
         (in_range (r, c) \<and>
          (\<exists>flippable. getFlippablePieces r c player s = Some (Done flippable s) \<and>
             flippable \<noteq> []))) \<and>
      sorted_wrt row_major validMoves \<and> distinct validMoves"
    by (intro exI [of _ ?vm] conjI) simp_all
  with frame show ?thesis ..
qed

theorem C10_witness:
  "wf_board (board initial_state) \<and>
   (\<exists>x. getFlippablePieces 2 3 BLACK initial_state = Some x \<and> final_state x = initial_state) \<and>
   (\<exists>validMoves.
      getValidMoves BLACK initial_state = Some (Done validMoves initial_state) \<and>
      validMoves = [(2, 3), (3, 2), (4, 5), (5, 4)] \<and>
      (\<exists>flippable. getFlippablePieces 4 5 BLACK initial_state =
         Some (Done flippable initial_state) \<and> flippable \<noteq> []) \<and>
      (\<nexists>flippable. getFlippablePieces 0 0 BLACK initial_state =
         Some (Done flippable initial_state) \<and> flippable \<noteq> []) \<and>
      sorted_wrt row_major validMoves \<and> distinct validMoves)"
proof -
  have wf: "wf_board (board initial_state)"
    by (simp add: board_initial_state wf_initial_board)
  have pl: "BLACK = BLACK \<or> BLACK = WHITE" by simp
  have rng: "in_range (4, 5)" "in_range (0, 0)"
    by (simp_all add: in_range_def BOARD_SIZE_def)
  from C10_queries_read_only [OF wf pl, of 2 3] obtain x validMoves where
    x: "getFlippablePieces 2 3 BLACK initial_state = Some x" "final_state x = initial_state"
    and g: "getValidMoves BLACK initial_state = Some (Done validMoves initial_state)"
    and v: "validMoves = valid_moves (board initial_state) BLACK"
    and m: "\<forall>r c. ((r, c) \<in> set validMoves) =
       (in_range (r, c) \<and>
        (\<exists>flippable. getFlippablePieces r c BLACK initial_state =
           Some (Done flippable initial_state) \<and> flippable \<noteq> []))"
    and o: "sorted_wrt row_major validMoves" "distinct validMoves"
    by blast
  from v have lit: "validMoves = [(2, 3), (3, 2), (4, 5), (5, 4)]"
    by (simp add: board_initial_state valid_moves_initial)
  from m [rule_format, of 4 5] have m45: "((4, 5) \<in> set validMoves) =
      (in_range (4, 5) \<and>
       (\<exists>flippable. getFlippablePieces 4 5 BLACK initial_state =
          Some (Done flippable initial_state) \<and> flippable \<noteq> []))"
    .
  from m [rule_format, of 0 0] have m00: "((0, 0) \<in> set validMoves) =
      (in_range (0, 0) \<and>
       (\<exists>flippable. getFlippablePieces 0 0 BLACK initial_state =
          Some (Done flippable initial_state) \<and> flippable \<noteq> []))"
    .
  from m45 rng(1) lit have yes: "\<exists>flippable. getFlippablePieces 4 5 BLACK initial_state =
      Some (Done flippable initial_state) \<and> flippable \<noteq> []"
    by simp
  from m00 rng(2) lit have no: "\<nexists>flippable. getFlippablePieces 0 0 BLACK initial_state =
      Some (Done flippable initial_state) \<and> flippable \<noteq> []"
    by simp
  from wf x g lit yes no o show ?thesis by blast
qed

section \<open>Further properties\<close>

text \<open>
  On any globals whatever, also a board that is not well formed, a call of
  \<^verbatim>\<open>getFlippablePieces\<close> or \<^verbatim>\<open>getValidMoves\<close> that returns or throws leaves every global
  as it was.
\<close>

theorem queries_never_write:
  "(getFlippablePieces r c player s = Some x \<longrightarrow> final_state x = s) \<and>
   (getValidMoves player s = Some y \<longrightarrow> final_state y = s)"
  using getFlippablePieces_frame [of r c player s x] getValidMoves_frame [of player s y]
  by blast

theorem queries_never_write_witness:
  "getFlippablePieces 8 0 BLACK initial_state = Some (Threw TypeError initial_state) \<and>
   final_state (Threw TypeError initial_state :: pos list exec) = initial_state"
proof -
  have wf: "wf_board (board initial_state)"
    by (simp add: board_initial_state wf_initial_board)
  have g: "getFlippablePieces 8 0 BLACK initial_state = Some (Threw TypeError initial_state)"
    by (rule getFlippablePieces_row_out [OF wf]) (simp add: BOARD_SIZE_def)
  from queries_never_write [of 8 0 BLACK initial_state "Threw TypeError initial_state"] g
  show ?thesis by simp
qed

text \<open>
  The example of the specification: from the opening position \<open>BLACK\<close> plays (2,3); the
  disc at (3,3) turns black, the new disc at (2,3) is black, the score shown is 4 to 1 and
  \<open>WHITE\<close> is to move.
\<close>

theorem opening_move_example:
  "\<exists>s'. handleMove 2 3 initial_state = Some (Done () s') \<and>
        at initial_board (3, 3) = WHITE \<and> at (board s') (3, 3) = BLACK \<and>
        at (board s') (2, 3) = BLACK \<and> score s' = (4, 1) \<and>
        currentPlayer s' = WHITE \<and> message s' = TurnMessage Shiro"
proof -
  have wf: "wf_board (board initial_state)"
    by (simp add: board_initial_state wf_initial_board)
  have rc: "in_range (2, 3)" by (simp add: in_range_def BOARD_SIZE_def)
  have pl: "currentPlayer initial_state = BLACK \<or> currentPlayer initial_state = WHITE"
    by (simp add: currentPlayer_initial_state)
  let ?b = "place initial_board (2, 3) BLACK [(3, 3)]"
  have v: "valid_moves ?b WHITE = [(2, 2), (2, 4), (4, 2)]"
    "count_of ?b BLACK = 4" "count_of ?b WHITE = 1"
    "at ?b (3, 3) = BLACK" "at ?b (2, 3) = BLACK" "at initial_board (3, 3) = WHITE"
    by code_simp+
  show ?thesis
    using handleMove_wf [OF wf rc pl] v
    by (simp add: board_initial_state currentPlayer_initial_state flips_initial_2_3
        rendered_def Let_def opposite_def)
qed

text \<open>
  In a game every call of \<^verbatim>\<open>handleMove\<close> and every pass callback comes to an end,
  leaves a state of a game, and never writes a cell that the board does not have.
\<close>

theorem game_steps_end:
  assumes "game_inv s"
  shows "\<exists>x. step e s = Some x \<and> game_inv (final_state x) \<and>
           x \<noteq> Threw SparseWrite (final_state x)"
proof -
  from step_total [OF assms, of e] obtain x where
    x: "step e s = Some x" "game_inv (final_state x)" by blast
  with game_inv_no_SparseWrite(1) [OF assms, of e "final_state x"] show ?thesis
    by auto
qed

theorem game_steps_end_witness:
  "game_inv initial_state \<and>
   (\<exists>x. step (Move 2 3) initial_state = Some x \<and> game_inv (final_state x) \<and>
        x \<noteq> Threw SparseWrite (final_state x))"
  using game_steps_end [OF game_inv_initial, of "Move 2 3"] game_inv_initial
  by (simp del: step.simps)


end
